theory Spec2Isabelle
  imports Complex_Main
begin

section \<open>NumPy arrays over exact real arithmetic\<close>

text \<open>
  The notebooks compute with dense NumPy arrays of floats.  The embedding keeps the
  shape of every array and reads its entries through an index function; the entries
  are real numbers, so every statement below is about the notebooks' formulas in exact
  arithmetic; double precision is modelled separately, in the last section of the
  definitions, for one row and one feature.  Only the entries inside the shape of an
  array are meaningful.
  NumPy raises on operands whose shapes do not fit; the operations below are stated for
  conforming shapes, as in the notebooks, and the theorems assume them.
\<close>

record vec =
  len :: nat
  elt :: "nat \<Rightarrow> real"

record mat =
  nrows :: nat
  ncols :: nat
  ent :: "nat \<Rightarrow> nat \<Rightarrow> real"

text \<open>Exceptions that the notebooks' code can raise.\<close>

datatype error = LinAlgError | ZeroDivisionError | AssertionError | ValueError

text \<open>
  A float computed from finite operands: division by zero does not raise in NumPy,
  it yields an infinity or a NaN, which then propagates.
\<close>

datatype fval = Fin real | PInf | NInf | NaN

definition transpose_m :: "mat \<Rightarrow> mat" where
  \<comment> \<open>\<^verbatim>\<open>X.T\<close>\<close>
  "transpose_m X = \<lparr>nrows = ncols X, ncols = nrows X, ent = (\<lambda>i j. ent X j i)\<rparr>"

definition dot_mm :: "mat \<Rightarrow> mat \<Rightarrow> mat" where
  \<comment> \<open>\<^verbatim>\<open>np.dot\<close> of two 2-d arrays\<close>
  "dot_mm A B = \<lparr>nrows = nrows A, ncols = ncols B,
     ent = (\<lambda>i j. \<Sum>k<ncols A. ent A i k * ent B k j)\<rparr>"

definition dot_mv :: "mat \<Rightarrow> vec \<Rightarrow> vec" where
  \<comment> \<open>\<^verbatim>\<open>np.dot\<close> of a 2-d array and a 1-d array\<close>
  "dot_mv A v = \<lparr>len = nrows A, elt = (\<lambda>i. \<Sum>k<ncols A. ent A i k * elt v k)\<rparr>"

definition dot_vv :: "vec \<Rightarrow> vec \<Rightarrow> real" where
  \<comment> \<open>\<^verbatim>\<open>np.dot\<close> of two 1-d arrays\<close>
  "dot_vv u v = (\<Sum>k<len u. elt u k * elt v k)"

definition add_mm :: "mat \<Rightarrow> mat \<Rightarrow> mat" where
  "add_mm A B = \<lparr>nrows = nrows A, ncols = ncols A, ent = (\<lambda>i j. ent A i j + ent B i j)\<rparr>"

definition scale_m :: "mat \<Rightarrow> real \<Rightarrow> mat" where
  "scale_m A c = \<lparr>nrows = nrows A, ncols = ncols A, ent = (\<lambda>i j. ent A i j * c)\<rparr>"

definition row :: "mat \<Rightarrow> nat \<Rightarrow> vec" where
  \<comment> \<open>\<^verbatim>\<open>X[i,:]\<close>\<close>
  "row X i = \<lparr>len = ncols X, elt = ent X i\<rparr>"

definition delete_row :: "mat \<Rightarrow> nat \<Rightarrow> mat" where
  \<comment> \<open>\<^verbatim>\<open>np.delete(X, i, 0)\<close>: a new array without row \<open>i\<close>\<close>
  "delete_row X i = \<lparr>nrows = nrows X - 1, ncols = ncols X,
     ent = (\<lambda>r. ent X (if r < i then r else Suc r))\<rparr>"

definition delete_at :: "vec \<Rightarrow> nat \<Rightarrow> vec" where
  \<comment> \<open>\<^verbatim>\<open>np.delete(y, i)\<close>\<close>
  "delete_at y i = \<lparr>len = len y - 1, elt = (\<lambda>k. elt y (if k < i then k else Suc k))\<rparr>"

definition identity :: "nat \<Rightarrow> mat" where
  \<comment> \<open>\<^verbatim>\<open>np.identity(n)\<close>\<close>
  "identity n = \<lparr>nrows = n, ncols = n, ent = (\<lambda>i j. if i = j then 1 else 0)\<rparr>"

definition diag :: "vec \<Rightarrow> mat" where
  \<comment> \<open>\<^verbatim>\<open>np.diag\<close> of a 1-d array: a fresh square array, zero off the diagonal\<close>
  "diag v = \<lparr>nrows = len v, ncols = len v,
     ent = (\<lambda>i j. if i = j \<and> i < len v then elt v i else 0)\<rparr>"

definition ones :: "nat \<Rightarrow> vec" where
  \<comment> \<open>\<^verbatim>\<open>np.ones(n)\<close>\<close>
  "ones n = \<lparr>len = n, elt = (\<lambda>i. if i < n then 1 else 0)\<rparr>"

definition scale_v :: "vec \<Rightarrow> real \<Rightarrow> vec" where
  "scale_v v c = \<lparr>len = len v, elt = (\<lambda>i. elt v i * c)\<rparr>"

subsection \<open>The dense solver behind \<^verbatim>\<open>np.linalg.inv\<close>\<close>

text \<open>
  \<^verbatim>\<open>np.linalg.inv\<close> eliminates with row pivoting and raises \<^verbatim>\<open>LinAlgError\<close>
  when the array is not square or when no pivot can be found.  Over exact arithmetic
  this is Gauss-Jordan elimination on the array next to the identity: column by column,
  a row with a non-zero entry is swapped into place, scaled to have pivot 1 and
  subtracted from all other rows.
\<close>

type_synonym entries = "nat \<Rightarrow> nat \<Rightarrow> real"

definition find_pivot :: "entries \<Rightarrow> nat \<Rightarrow> nat \<Rightarrow> nat option" where
  "find_pivot M j p = List.find (\<lambda>r. M r j \<noteq> 0) [j..<p]"

definition swap_rows :: "nat \<Rightarrow> nat \<Rightarrow> entries \<Rightarrow> entries" where
  "swap_rows a b M = (\<lambda>k. if k = a then M b else if k = b then M a else M k)"

definition reduce_col :: "nat \<Rightarrow> entries \<times> entries \<Rightarrow> entries \<times> entries" where
  "reduce_col j S =
     (let M = fst S; N = snd S; c = M j j;
          Mj = (\<lambda>x. M j x / c); Nj = (\<lambda>x. N j x / c)
      in (\<lambda>k. if k = j then Mj else (\<lambda>x. M k x - M k j * Mj x),
          \<lambda>k. if k = j then Nj else (\<lambda>x. N k x - M k j * Nj x)))"

definition gj_step :: "nat \<Rightarrow> nat \<Rightarrow> entries \<times> entries \<Rightarrow> (entries \<times> entries) option" where
  "gj_step p j S =
     (case find_pivot (fst S) j p of
        None \<Rightarrow> None
      | Some r \<Rightarrow> Some (reduce_col j (swap_rows j r (fst S), swap_rows j r (snd S))))"

primrec gauss_jordan :: "nat \<Rightarrow> nat \<Rightarrow> entries \<times> entries \<Rightarrow> (entries \<times> entries) option" where
  "gauss_jordan p 0 S = Some S"
| "gauss_jordan p (Suc j) S =
     (case gauss_jordan p j S of None \<Rightarrow> None | Some S' \<Rightarrow> gj_step p j S')"

definition inv :: "mat \<Rightarrow> error + mat" where
  "inv A =
     (if nrows A \<noteq> ncols A then Inl LinAlgError
      else case gauss_jordan (nrows A) (nrows A) (ent A, ent (identity (nrows A))) of
             None \<Rightarrow> Inl LinAlgError
           | Some S \<Rightarrow> Inr \<lparr>nrows = nrows A, ncols = nrows A, ent = snd S\<rparr>)"

text \<open>The mathematical notions the solver is measured against.\<close>

definition mat_mul :: "nat \<Rightarrow> entries \<Rightarrow> entries \<Rightarrow> entries" where
  "mat_mul p A B = (\<lambda>i j. \<Sum>k<p. A i k * B k j)"

definition is_unit :: "nat \<Rightarrow> entries \<Rightarrow> bool" where
  "is_unit p M \<longleftrightarrow> (\<forall>i<p. \<forall>j<p. M i j = (if i = j then 1 else 0))"

definition is_inverse :: "nat \<Rightarrow> entries \<Rightarrow> entries \<Rightarrow> bool" where
  "is_inverse p A B \<longleftrightarrow> is_unit p (mat_mul p B A) \<and> is_unit p (mat_mul p A B)"

definition invertible :: "mat \<Rightarrow> bool" where
  "invertible A \<longleftrightarrow> nrows A = ncols A \<and> (\<exists>B. is_inverse (nrows A) (ent A) B)"


subsection \<open>Float results: division by zero and its propagation\<close>

definition fdiv :: "real \<Rightarrow> real \<Rightarrow> fval" where
  \<comment> \<open>a finite float divided by a finite float\<close>
  "fdiv a b = (if b \<noteq> 0 then Fin (a / b) else if a = 0 then NaN else if 0 < a then PInf else NInf)"

fun fsquare :: "fval \<Rightarrow> fval" where
  "fsquare (Fin a) = Fin (a\<^sup>2)"
| "fsquare PInf = PInf"
| "fsquare NInf = PInf"
| "fsquare NaN = NaN"

fun fadd :: "fval \<Rightarrow> fval \<Rightarrow> fval" where
  "fadd (Fin a) (Fin b) = Fin (a + b)"
| "fadd NaN _ = NaN"
| "fadd _ NaN = NaN"
| "fadd PInf NInf = NaN"
| "fadd NInf PInf = NaN"
| "fadd PInf _ = PInf"
| "fadd _ PInf = PInf"
| "fadd NInf _ = NInf"
| "fadd _ NInf = NInf"

fun fsub :: "fval \<Rightarrow> fval \<Rightarrow> fval" where
  "fsub (Fin a) (Fin b) = Fin (a - b)"
| "fsub NaN _ = NaN"
| "fsub _ NaN = NaN"
| "fsub PInf PInf = NaN"
| "fsub NInf NInf = NaN"
| "fsub PInf _ = PInf"
| "fsub _ NInf = PInf"
| "fsub NInf _ = NInf"
| "fsub _ PInf = NInf"

fun fdivr :: "fval \<Rightarrow> real \<Rightarrow> fval" where
  \<comment> \<open>a float divided by a finite float\<close>
  "fdivr (Fin a) d = fdiv a d"
| "fdivr PInf d = (if 0 \<le> d then PInf else NInf)"
| "fdivr NInf d = (if 0 \<le> d then NInf else PInf)"
| "fdivr NaN d = NaN"

fun flt :: "fval \<Rightarrow> real \<Rightarrow> bool" where
  \<comment> \<open>\<^verbatim>\<open>a < c\<close>\<close>
  "flt (Fin a) c = (a < c)"
| "flt NInf c = True"
| "flt PInf c = False"
| "flt NaN c = False"

fun fabs_gt :: "fval \<Rightarrow> real \<Rightarrow> bool" where
  \<comment> \<open>\<^verbatim>\<open>np.abs(a) > c\<close>\<close>
  "fabs_gt (Fin a) c = (\<bar>a\<bar> > c)"
| "fabs_gt NInf c = True"
| "fabs_gt PInf c = True"
| "fabs_gt NaN c = False"

primrec fsum :: "nat \<Rightarrow> (nat \<Rightarrow> fval) \<Rightarrow> fval" where
  \<comment> \<open>\<^verbatim>\<open>np.sum\<close> of the first \<open>n\<close> entries; the sum of no entries is \<open>0.0\<close>\<close>
  "fsum 0 f = Fin 0"
| "fsum (Suc n) f = fadd (fsum n f) (f n)"

section \<open>The leave-one-out cross-validation estimators\<close>

text \<open>
  \<^verbatim>\<open>h = np.array([np.dot(x_i, np.dot(A_inv, x_i)) for x_i in X])\<close>
\<close>

definition leverages :: "mat \<Rightarrow> mat \<Rightarrow> vec" where
  "leverages X A_inv =
     \<lparr>len = nrows X, elt = (\<lambda>i. dot_vv (row X i) (dot_mv A_inv (row X i)))\<rparr>"

text \<open>
  The common body of the three one-fit estimators, from the regularized matrix \<open>A\<close> on:
  \<^verbatim>\<open>
    A_inv = np.linalg.inv(A)
    b_hat = np.dot(A_inv, np.dot(X.T, y))
    y_hat = np.dot(X, b_hat)
    h = np.array([np.dot(x_i, np.dot(A_inv, x_i)) for x_i in X])
    ... np.sum(((y - y_hat) / (1 - h))**2)
  \<close>
\<close>

definition loocv_sum :: "mat \<Rightarrow> vec \<Rightarrow> mat \<Rightarrow> error + fval" where
  "loocv_sum X y A =
     (case inv A of
        Inl e \<Rightarrow> Inl e
      | Inr A_inv \<Rightarrow>
          (let b_hat = dot_mv A_inv (dot_mv (transpose_m X) y);
               y_hat = dot_mv X b_hat;
               h = leverages X A_inv
           in Inr (fsum (len y) (\<lambda>i. fsquare (fdiv (elt y i - elt y_hat i) (1 - elt h i))))))"

definition compute_loocv :: "mat \<Rightarrow> vec \<Rightarrow> mat \<Rightarrow> error + fval" where
  \<comment> \<open>first notebook: the sum of the squared leave-one-out residuals\<close>
  "compute_loocv X y Gamma =
     (let A = add_mm (dot_mm (transpose_m X) X) (dot_mm (transpose_m Gamma) Gamma)
      in loocv_sum X y A)"

definition compute_loocv_efficient :: "mat \<Rightarrow> vec \<Rightarrow> mat \<Rightarrow> error + fval" where
  \<comment> \<open>second notebook, and \<^verbatim>\<open>compute_loocv\<close> of the rotation notebook: the mean\<close>
  "compute_loocv_efficient X y Gamma =
     (let A = add_mm (dot_mm (transpose_m X) X) (dot_mm (transpose_m Gamma) Gamma)
      in case loocv_sum X y A of
           Inl e \<Rightarrow> Inl e
         | Inr s \<Rightarrow> Inr (fdivr s (real (len y))))"

definition compute_loocv_D :: "mat \<Rightarrow> vec \<Rightarrow> mat \<Rightarrow> error + fval" where
  \<comment> \<open>\<^verbatim>\<open>compute_loocv(X, y, D)\<close> of the simulation notebook\<close>
  "compute_loocv_D X y D =
     (let A = add_mm (dot_mm (transpose_m X) X) D
      in case loocv_sum X y A of
           Inl e \<Rightarrow> Inl e
         | Inr s \<Rightarrow> Inr (fdivr s (real (len y))))"

text \<open>
  The brute-force loop: one refit per held-out row; an exception of the solver leaves
  the loop.
  \<^verbatim>\<open>
    for i in range(len(y)):
        x_i = X[i,:]
        y_i = y[i]
        X_mi = np.delete(X, i, 0)
        y_mi = np.delete(y, i)
        A_mi = np.dot(X_mi.T, X_mi) + np.dot(Gamma.T, Gamma)
        b_hat_mi = np.dot(np.linalg.inv(A_mi), np.dot(X_mi.T, y_mi))
        y_hat_i = np.dot(x_i, b_hat_mi)
        result += (y_i - y_hat_i)**2
  \<close>
\<close>

definition loo_residual :: "mat \<Rightarrow> vec \<Rightarrow> mat \<Rightarrow> nat \<Rightarrow> error + real" where
  "loo_residual X y Gamma i =
     (let x_i = row X i;
          y_i = elt y i;
          X_mi = delete_row X i;
          y_mi = delete_at y i;
          A_mi = add_mm (dot_mm (transpose_m X_mi) X_mi) (dot_mm (transpose_m Gamma) Gamma)
      in case inv A_mi of
           Inl e \<Rightarrow> Inl e
         | Inr A_mi_inv \<Rightarrow>
             (let b_hat_mi = dot_mv A_mi_inv (dot_mv (transpose_m X_mi) y_mi);
                  y_hat_i = dot_vv x_i b_hat_mi
              in Inr (y_i - y_hat_i)))"

fun loocv_loop :: "mat \<Rightarrow> vec \<Rightarrow> mat \<Rightarrow> nat list \<Rightarrow> real \<Rightarrow> error + real" where
  "loocv_loop X y Gamma [] result = Inr result"
| "loocv_loop X y Gamma (i # is) result =
     (case loo_residual X y Gamma i of
        Inl e \<Rightarrow> Inl e
      | Inr r \<Rightarrow> loocv_loop X y Gamma is (result + r\<^sup>2))"

definition compute_loocv_slow :: "mat \<Rightarrow> vec \<Rightarrow> mat \<Rightarrow> error + fval" where
  "compute_loocv_slow X y Gamma =
     (case loocv_loop X y Gamma [0..<len y] 0 of
        Inl e \<Rightarrow> Inl e
      | Inr result \<Rightarrow> Inr (Fin result))"

definition compute_loocv_brute_force :: "mat \<Rightarrow> vec \<Rightarrow> mat \<Rightarrow> error + fval" where
  \<comment> \<open>\<^verbatim>\<open>result / len(y)\<close>: with no rows, \<open>result\<close> is still the integer 0 and
     Python's \<open>0 / 0\<close> raises\<close>
  "compute_loocv_brute_force X y Gamma =
     (case loocv_loop X y Gamma [0..<len y] 0 of
        Inl e \<Rightarrow> Inl e
      | Inr result \<Rightarrow>
          if len y = 0 then Inl ZeroDivisionError else Inr (Fin (result / real (len y))))"

section \<open>Notions used in the proofs\<close>

text \<open>
  The invariant of the elimination on the pair \<open>(M, N)\<close> started from \<open>(A, I)\<close>:
  \<open>N A = M\<close>, and every solution of \<open>M v = N w\<close> solves \<open>A v = w\<close>.
\<close>

definition gj_inv :: "nat \<Rightarrow> entries \<Rightarrow> entries \<times> entries \<Rightarrow> bool" where
  "gj_inv p A S \<longleftrightarrow>
     (\<forall>k<p. \<forall>c<p. (\<Sum>l<p. snd S k l * A l c) = fst S k c) \<and>
     (\<forall>v w. (\<forall>k<p. (\<Sum>c<p. fst S k c * v c) = (\<Sum>c<p. snd S k c * w c))
         \<longrightarrow> (\<forall>k<p. (\<Sum>c<p. A k c * v c) = w k))"

definition unit_cols :: "nat \<Rightarrow> nat \<Rightarrow> entries \<Rightarrow> bool" where
  "unit_cols p j M \<longleftrightarrow> (\<forall>k<p. \<forall>c<j. M k c = (if k = c then 1 else 0))"

text \<open>Shapes that fit together, and the regularized matrix \<open>X\<^sup>T X + \<Gamma>\<^sup>T \<Gamma>\<close>.\<close>

definition conforming :: "mat \<Rightarrow> vec \<Rightarrow> mat \<Rightarrow> bool" where
  "conforming X y Gamma \<longleftrightarrow> len y = nrows X \<and> ncols Gamma = ncols X"

definition regularized :: "mat \<Rightarrow> mat \<Rightarrow> mat" where
  "regularized X Gamma = add_mm (dot_mm (transpose_m X) X) (dot_mm (transpose_m Gamma) Gamma)"

text \<open>Array literals: \<^verbatim>\<open>np.array([[...], ...])\<close> and \<^verbatim>\<open>np.array([...])\<close>.\<close>

definition array2 :: "real list list \<Rightarrow> mat" where
  "array2 rs = \<lparr>nrows = length rs, ncols = (case rs of [] \<Rightarrow> 0 | r # _ \<Rightarrow> length r),
     ent = (\<lambda>i j. rs ! i ! j)\<rparr>"

definition array1 :: "real list \<Rightarrow> vec" where
  "array1 xs = \<lparr>len = length xs, elt = (\<lambda>i. xs ! i)\<rparr>"

text \<open>
  The quantities of the closed formula, written from a given inverse \<open>A\<^sup>-\<^sup>1\<close>:
  the fit \<open>b = A\<^sup>-\<^sup>1 X\<^sup>T y\<close>, the predictions \<open>X b\<close> and the leverages
  \<open>h\<^sub>i = x\<^sub>i\<^sup>T A\<^sup>-\<^sup>1 x\<^sub>i\<close>.
\<close>

definition spec_b_hat :: "mat \<Rightarrow> vec \<Rightarrow> entries \<Rightarrow> nat \<Rightarrow> real" where
  "spec_b_hat X y Ainv a = (\<Sum>c<ncols X. Ainv a c * (\<Sum>k<nrows X. ent X k c * elt y k))"

definition spec_y_hat :: "mat \<Rightarrow> vec \<Rightarrow> entries \<Rightarrow> nat \<Rightarrow> real" where
  "spec_y_hat X y Ainv i = (\<Sum>a<ncols X. ent X i a * spec_b_hat X y Ainv a)"

definition spec_leverage :: "mat \<Rightarrow> entries \<Rightarrow> nat \<Rightarrow> real" where
  "spec_leverage X Ainv i = (\<Sum>a<ncols X. ent X i a * (\<Sum>c<ncols X. Ainv a c * ent X i c))"

definition spec_loocv :: "mat \<Rightarrow> vec \<Rightarrow> entries \<Rightarrow> real" where
  "spec_loocv X y Ainv =
     (\<Sum>i<nrows X. ((elt y i - spec_y_hat X y Ainv i) / (1 - spec_leverage X Ainv i))\<^sup>2)"

text \<open>Positive definiteness of the leading \<open>p \<times> p\<close> block.\<close>

definition pos_def :: "nat \<Rightarrow> entries \<Rightarrow> bool" where
  "pos_def p G \<longleftrightarrow>
     (\<forall>v. (\<exists>c<p. v c \<noteq> 0) \<longrightarrow> 0 < (\<Sum>a<p. v a * (\<Sum>c<p. G a c * v c)))"

definition spec_loocv_float :: "mat \<Rightarrow> vec \<Rightarrow> entries \<Rightarrow> fval" where
  \<comment> \<open>the same sum with float division: a term with \<open>h\<^sub>i = 1\<close> is infinite or NaN\<close>
  "spec_loocv_float X y Ainv =
     fsum (nrows X)
       (\<lambda>i. fsquare (fdiv (elt y i - spec_y_hat X y Ainv i) (1 - spec_leverage X Ainv i)))"

section \<open>The local-optimum verifier\<close>

definition delta_x :: real where
  \<comment> \<open>\<^verbatim>\<open>delta_x = 1.0e-3\<close>\<close>
  "delta_x = 1 / 1000"

definition slope_fails :: "fval \<Rightarrow> fval \<Rightarrow> bool" where
  \<comment> \<open>\<^verbatim>\<open>delta_y = f(x) - f0; relative_delta_y = delta_y / delta_x;
      relative_delta_y < 0 and np.abs(relative_delta_y) > 1.0e-3\<close>\<close>
  "slope_fails fx f0 =
     (let delta_y = fsub fx f0;
          relative_delta_y = fdivr delta_y delta_x
      in flt relative_delta_y 0 \<and> fabs_gt relative_delta_y (1 / 1000))"

text \<open>
  \<^verbatim>\<open>
    for x in [alpha-delta_x, alpha+delta_x]:
        x = np.abs(x)
        delta_y = f(x) - f0
        relative_delta_y = delta_y / delta_x
        if relative_delta_y < 0 and np.abs(relative_delta_y) > 1.0e-3:
            assert False, "can't verify optimum"
  \<close>
\<close>

fun check_directions :: "(real \<Rightarrow> error + fval) \<Rightarrow> fval \<Rightarrow> real list \<Rightarrow> error + unit" where
  "check_directions f f0 [] = Inr ()"
| "check_directions f f0 (x # xs) =
     (case f \<bar>x\<bar> of
        Inl e \<Rightarrow> Inl e
      | Inr fx \<Rightarrow>
          if slope_fails fx f0 then Inl AssertionError else check_directions f f0 xs)"

definition verify_loocv_opt_1 :: "mat \<Rightarrow> vec \<Rightarrow> real \<Rightarrow> error + unit" where
  "verify_loocv_opt_1 X y alpha =
     (let f = (\<lambda>x. compute_loocv_D X y (scale_m (identity (ncols X)) x))
      in case f alpha of
           Inl e \<Rightarrow> Inl e
         | Inr f0 \<Rightarrow> check_directions f f0 [alpha - delta_x, alpha + delta_x])"

definition set_item :: "vec \<Rightarrow> nat \<Rightarrow> real \<Rightarrow> vec" where
  \<comment> \<open>the array after \<^verbatim>\<open>v[i] = x\<close>\<close>
  "set_item v i x = v\<lparr>elt := (elt v)(i := x)\<rparr>"

text \<open>
  \<^verbatim>\<open>
    def f(x):
        alpha_copy = np.array(alpha)
        alpha_copy[i] = x
        return compute_loocv(X, y, np.diag(alpha_copy))
  \<close>
\<close>

definition loocv_at :: "mat \<Rightarrow> vec \<Rightarrow> vec \<Rightarrow> nat \<Rightarrow> real \<Rightarrow> error + fval" where
  "loocv_at X y alpha i x = compute_loocv_D X y (diag (set_item alpha i x))"

fun verify_components :: "mat \<Rightarrow> vec \<Rightarrow> vec \<Rightarrow> nat list \<Rightarrow> error + unit" where
  "verify_components X y alpha [] = Inr ()"
| "verify_components X y alpha (i # is) =
     (let alpha_i = elt alpha i;
          f = loocv_at X y alpha i
      in case f alpha_i of
           Inl e \<Rightarrow> Inl e
         | Inr f0 \<Rightarrow>
             (case check_directions f f0 [alpha_i - delta_x, alpha_i + delta_x] of
                Inl e \<Rightarrow> Inl e
              | Inr _ \<Rightarrow> verify_components X y alpha is))"

definition verify_loocv_opt_p :: "mat \<Rightarrow> vec \<Rightarrow> vec \<Rightarrow> error + unit" where
  \<comment> \<open>\<^verbatim>\<open>for i, alpha_i in enumerate(alpha): ...\<close>\<close>
  "verify_loocv_opt_p X y alpha = verify_components X y alpha [0..<len alpha]"

section \<open>The ridge fit\<close>

text \<open>
  The regularization argument is a Python float or a 1-d array;
  \<^verbatim>\<open>isinstance(alpha, float)\<close> tells them apart.
\<close>

datatype alpha_arg = Scalar real | PerFeature vec

definition fit_ridge_regression :: "mat \<Rightarrow> vec \<Rightarrow> alpha_arg \<Rightarrow> error + vec" where
  "fit_ridge_regression X y alpha =
     (let alpha' = (case alpha of
                      Scalar a \<Rightarrow> scale_v (ones (ncols X)) a
                    | PerFeature v \<Rightarrow> v);
          A = add_mm (dot_mm (transpose_m X) X) (diag alpha')
      in case inv A of
           Inl e \<Rightarrow> Inl e
         | Inr A_inv \<Rightarrow> Inr (dot_mv A_inv (dot_mv (transpose_m X) y)))"

section \<open>Simulation statistics\<close>

fun fsqrt :: "fval \<Rightarrow> fval" where
  "fsqrt (Fin a) = (if 0 \<le> a then Fin (sqrt a) else NaN)"
| "fsqrt PInf = PInf"
| "fsqrt NInf = NaN"
| "fsqrt NaN = NaN"

definition np_mean :: "real list \<Rightarrow> fval" where
  \<comment> \<open>\<^verbatim>\<open>np.mean\<close>: the sum divided by the count; NaN for no values\<close>
  "np_mean vs = fdiv (sum_list vs) (real (length vs))"

definition np_std :: "real list \<Rightarrow> nat \<Rightarrow> fval" where
  \<comment> \<open>\<^verbatim>\<open>np.std(values, ddof=ddof)\<close>: the squared deviations from the mean, summed,
     divided by \<open>max(n - ddof, 0)\<close>, and the square root of that\<close>
  "np_std vs ddof =
     (case np_mean vs of
        Fin m \<Rightarrow> fsqrt (fdiv (\<Sum>x\<leftarrow>vs. \<bar>x - m\<bar>\<^sup>2) (real (length vs - ddof)))
      | _ \<Rightarrow> NaN)"

text \<open>
  \<^verbatim>\<open>scipy.stats.t.interval(alpha, df, scale)\<close> is taken as a parameter: it maps the
  confidence level, the degrees of freedom and the scale to the two endpoints.
\<close>

type_synonym t_interval = "real \<Rightarrow> int \<Rightarrow> fval \<Rightarrow> fval \<times> fval"

definition compute_simulation_statistics :: "t_interval \<Rightarrow> real list \<Rightarrow> fval \<times> fval" where
  "compute_simulation_statistics interval_fn values =
     (let n = length values;
          mean = np_mean values;
          stddev = np_std values 1;
          interval = interval_fn (95 / 100) (int n - 1) (fdivr stddev (sqrt (real n)))
      in (mean, snd interval))"

text \<open>The sample statistics in the usual notation.\<close>

definition sample_mean :: "real list \<Rightarrow> real" where
  "sample_mean vs = sum_list vs / real (length vs)"

definition sample_sd :: "real list \<Rightarrow> real" where
  "sample_sd vs = sqrt ((\<Sum>x\<leftarrow>vs. (x - sample_mean vs)\<^sup>2) / (real (length vs) - 1))"

section \<open>Random rotations\<close>

definition set_ent :: "mat \<Rightarrow> nat \<Rightarrow> nat \<Rightarrow> real \<Rightarrow> mat" where
  \<comment> \<open>the array after \<^verbatim>\<open>M[i, j] = v\<close>\<close>
  "set_ent M i j v = M\<lparr>ent := (ent M)(i := (ent M i)(j := v))\<rparr>"

definition rotation_step :: "nat \<Rightarrow> nat \<Rightarrow> real \<Rightarrow> mat" where
  "rotation_step n i theta =
     (let rotation = identity n;
          rotation = set_ent rotation i i (cos theta);
          rotation = set_ent rotation i (Suc i) (- sin theta);
          rotation = set_ent rotation (Suc i) i (sin theta);
          rotation = set_ent rotation (Suc i) (Suc i) (cos theta)
      in rotation)"

text \<open>
  The draws of \<^verbatim>\<open>np.random.uniform()\<close> are a parameter: \<open>u i\<close> is the draw of
  iteration \<open>i\<close>, and \<^verbatim>\<open>theta = np.random.uniform()*2*np.pi\<close>.
\<close>

primrec rotation_loop :: "nat \<Rightarrow> (nat \<Rightarrow> real) \<Rightarrow> nat \<Rightarrow> mat" where
  "rotation_loop n u 0 = identity n"
| "rotation_loop n u (Suc i) = dot_mm (rotation_loop n u i) (rotation_step n i (u i * 2 * pi))"

definition generate_rotation_matrix :: "nat \<Rightarrow> (nat \<Rightarrow> real) \<Rightarrow> mat" where
  \<comment> \<open>\<^verbatim>\<open>for i in range(n-1): ...\<close>\<close>
  "generate_rotation_matrix n u = rotation_loop n u (n - 1)"

text \<open>Orthogonality and the determinant (expansion along the first row).\<close>

definition orthogonal :: "mat \<Rightarrow> bool" where
  "orthogonal R \<longleftrightarrow>
     nrows R = ncols R \<and> is_unit (nrows R) (mat_mul (nrows R) (ent (transpose_m R)) (ent R))"

definition minor :: "entries \<Rightarrow> nat \<Rightarrow> entries" where
  "minor A j = (\<lambda>r c. A (Suc r) (if c < j then c else Suc c))"

primrec det :: "nat \<Rightarrow> entries \<Rightarrow> real" where
  "det 0 A = 1"
| "det (Suc n) A = (\<Sum>j<Suc n. (- 1) ^ j * A 0 j * det n (minor A j))"

text \<open>
  The finite-difference slope \<open>(f(x) - f(\<alpha>)) / \<delta>\<close> is negative with magnitude above
  \<open>10\<^sup>-\<^sup>3\<close>.
\<close>

definition negative_slope :: "real \<Rightarrow> real \<Rightarrow> bool" where
  "negative_slope fx f0 \<longleftrightarrow> (fx - f0) / delta_x < 0 \<and> \<bar>(fx - f0) / delta_x\<bar> > 1 / 1000"

text \<open>
  Multiplying by a plane rotation from the right mixes two neighbouring columns:
  column \<open>i\<close> becomes \<open>a A\<^sub>i + b A\<^sub>i\<^sub>+\<^sub>1\<close> and column \<open>i + 1\<close> becomes \<open>c A\<^sub>i + d A\<^sub>i\<^sub>+\<^sub>1\<close>.
\<close>

definition colop :: "nat \<Rightarrow> real \<Rightarrow> real \<Rightarrow> real \<Rightarrow> real \<Rightarrow> entries \<Rightarrow> entries" where
  "colop i a b c d A =
     (\<lambda>r col. if col = i then a * A r i + b * A r (Suc i)
              else if col = Suc i then c * A r i + d * A r (Suc i)
              else A r col)"

section \<open>Arrays as objects: the store\<close>

text \<open>
  NumPy arrays are mutable objects that functions receive by reference.  The store maps
  references to arrays; it holds the arrays of the caller and every array that the
  code assigns into.  The only assignment into an array in the notebooks is
  \<^verbatim>\<open>alpha_copy[i] = x\<close> in the per-feature verifier; all other statements bind a
  name to the fresh result of a NumPy call or to a number.
\<close>

type_synonym addr = nat

datatype array = Arr1 vec | Arr2 mat

record store =
  cells :: "addr \<Rightarrow> array option"
  next_addr :: addr

definition alloc :: "array \<Rightarrow> store \<Rightarrow> addr \<times> store" where
  \<comment> \<open>a new object at an unused reference\<close>
  "alloc v s = (next_addr s, s\<lparr>cells := (cells s)(next_addr s \<mapsto> v), next_addr := Suc (next_addr s)\<rparr>)"

definition store_set_item :: "addr \<Rightarrow> nat \<Rightarrow> real \<Rightarrow> store \<Rightarrow> store" where
  \<comment> \<open>\<^verbatim>\<open>a[i] = x\<close> on the 1-d array at reference \<open>a\<close>, in place\<close>
  "store_set_item a i x s =
     (case cells s a of
        Some (Arr1 v) \<Rightarrow> s\<lparr>cells := (cells s)(a \<mapsto> Arr1 (set_item v i x))\<rparr>
      | _ \<Rightarrow> s)"

text \<open>
  \<^verbatim>\<open>
    def f(x):
        alpha_copy = np.array(alpha)
        alpha_copy[i] = x
        return compute_loocv(X, y, np.diag(alpha_copy))
  \<close>
  A reference that does not hold an array of the expected kind is outside the model
  and reported as \<^verbatim>\<open>ValueError\<close>.
\<close>

definition loocv_at_st ::
    "addr \<Rightarrow> addr \<Rightarrow> addr \<Rightarrow> nat \<Rightarrow> real \<Rightarrow> store \<Rightarrow> (error + fval) \<times> store" where
  "loocv_at_st xa ya aa i x s =
     (case cells s aa of
        Some (Arr1 alpha) \<Rightarrow>
          (let (alpha_copy, s1) = alloc (Arr1 alpha) s;
               s2 = store_set_item alpha_copy i x s1
           in case (cells s2 xa, cells s2 ya, cells s2 alpha_copy) of
                (Some (Arr2 X), Some (Arr1 y), Some (Arr1 a)) \<Rightarrow> (compute_loocv_D X y (diag a), s2)
              | _ \<Rightarrow> (Inl ValueError, s2))
      | _ \<Rightarrow> (Inl ValueError, s))"

fun check_directions_st ::
    "(real \<Rightarrow> store \<Rightarrow> (error + fval) \<times> store) \<Rightarrow> fval \<Rightarrow> real list \<Rightarrow> store
       \<Rightarrow> (error + unit) \<times> store" where
  "check_directions_st f f0 [] s = (Inr (), s)"
| "check_directions_st f f0 (x # xs) s =
     (case f \<bar>x\<bar> s of
        (Inl e, s1) \<Rightarrow> (Inl e, s1)
      | (Inr fx, s1) \<Rightarrow>
          if slope_fails fx f0 then (Inl AssertionError, s1) else check_directions_st f f0 xs s1)"

fun verify_components_st ::
    "addr \<Rightarrow> addr \<Rightarrow> addr \<Rightarrow> nat list \<Rightarrow> store \<Rightarrow> (error + unit) \<times> store" where
  "verify_components_st xa ya aa [] s = (Inr (), s)"
| "verify_components_st xa ya aa (i # is) s =
     (case cells s aa of
        Some (Arr1 alpha) \<Rightarrow>
          (let alpha_i = elt alpha i;
               f = loocv_at_st xa ya aa i
           in case f alpha_i s of
                (Inl e, s1) \<Rightarrow> (Inl e, s1)
              | (Inr f0, s1) \<Rightarrow>
                  (case check_directions_st f f0 [alpha_i - delta_x, alpha_i + delta_x] s1 of
                     (Inl e, s2) \<Rightarrow> (Inl e, s2)
                   | (Inr _, s2) \<Rightarrow> verify_components_st xa ya aa is s2))
      | _ \<Rightarrow> (Inl ValueError, s))"

definition verify_loocv_opt_p_st :: "addr \<Rightarrow> addr \<Rightarrow> addr \<Rightarrow> store \<Rightarrow> (error + unit) \<times> store" where
  "verify_loocv_opt_p_st xa ya aa s =
     (case cells s aa of
        Some (Arr1 alpha) \<Rightarrow> verify_components_st xa ya aa [0..<len alpha] s
      | _ \<Rightarrow> (Inl ValueError, s))"

text \<open>
  The estimators, the ridge fit and the scalar verifier never assign into an array:
  called with references, they read their arguments and leave the store as it is.
\<close>

definition call_estimator ::
    "(mat \<Rightarrow> vec \<Rightarrow> mat \<Rightarrow> error + fval) \<Rightarrow> addr \<Rightarrow> addr \<Rightarrow> addr \<Rightarrow> store
       \<Rightarrow> (error + fval) \<times> store" where
  "call_estimator f xa ya ga s =
     (case (cells s xa, cells s ya, cells s ga) of
        (Some (Arr2 X), Some (Arr1 y), Some (Arr2 G)) \<Rightarrow> (f X y G, s)
      | _ \<Rightarrow> (Inl ValueError, s))"

definition verify_loocv_opt_1_st :: "addr \<Rightarrow> addr \<Rightarrow> real \<Rightarrow> store \<Rightarrow> (error + unit) \<times> store" where
  "verify_loocv_opt_1_st xa ya alpha s =
     (case (cells s xa, cells s ya) of
        (Some (Arr2 X), Some (Arr1 y)) \<Rightarrow> (verify_loocv_opt_1 X y alpha, s)
      | _ \<Rightarrow> (Inl ValueError, s))"

text \<open>
  The regularization argument of the fit is a float or a reference to a 1-d array; the
  statement \<^verbatim>\<open>alpha = np.ones(X.shape[1])*alpha\<close> binds the local name to a new
  array.
\<close>

datatype alpha_ref = FloatArg real | ArrayArg addr

definition fit_ridge_regression_st ::
    "addr \<Rightarrow> addr \<Rightarrow> alpha_ref \<Rightarrow> store \<Rightarrow> (error + vec) \<times> store" where
  "fit_ridge_regression_st xa ya alpha s =
     (case (cells s xa, cells s ya) of
        (Some (Arr2 X), Some (Arr1 y)) \<Rightarrow>
          (case alpha of
             FloatArg a \<Rightarrow>
               (let (alpha', s1) = alloc (Arr1 (scale_v (ones (ncols X)) a)) s
                in case cells s1 alpha' of
                     Some (Arr1 v) \<Rightarrow> (fit_ridge_regression X y (PerFeature v), s1)
                   | _ \<Rightarrow> (Inl ValueError, s1))
           | ArrayArg aa \<Rightarrow>
               (case cells s aa of
                  Some (Arr1 v) \<Rightarrow> (fit_ridge_regression X y (PerFeature v), s)
                | _ \<Rightarrow> (Inl ValueError, s)))
      | _ \<Rightarrow> (Inl ValueError, s))"

text \<open>
  A later store extends an earlier one when every object of the earlier store is still
  there, unchanged.
\<close>

definition extends :: "store \<Rightarrow> store \<Rightarrow> bool" where
  "extends s s' \<longleftrightarrow> next_addr s \<le> next_addr s' \<and> (\<forall>a<next_addr s. cells s' a = cells s a)"

section \<open>Double precision on one row and one feature\<close>

text \<open>
  NumPy's \<^verbatim>\<open>float64\<close> is IEEE 754 binary64: a finite double is an integer multiple
  \<open>m \<cdot> 2 powi (e - 52)\<close> with \<open>\<bar>m\<bar> < 2 ^ 53\<close> and \<open>-1022 \<le> e \<le> 1023\<close>, and every arithmetic
  operation returns the double nearest to its exact result, a tie going to the even
  multiple.  Around a real \<open>x \<noteq> 0\<close> the doubles are spaced by \<open>quantum x\<close>; below
  \<open>2 powi (-1022)\<close> the spacing stays \<open>2 powi (-1074)\<close> (gradual underflow), and a result that
  rounds to \<open>2 ^ 1024\<close> or beyond overflows to an infinity.
\<close>

definition round_even :: "real \<Rightarrow> int" where
  "round_even r = (let f = \<lfloor>r\<rfloor>; d = r - of_int f
                   in if d < 1/2 then f else if 1/2 < d then f + 1
                      else if even f then f else f + 1)"

definition quantum :: "real \<Rightarrow> real" where
  "quantum x = 2 powi (max \<lfloor>log 2 \<bar>x\<bar>\<rfloor> (- 1022) - 52)"

definition fl :: "real \<Rightarrow> fval" where
  \<comment> \<open>the double that an operation with exact result \<open>x\<close> returns\<close>
  "fl x = (if x = 0 then Fin 0
           else let r = of_int (round_even (x / quantum x)) * quantum x
                in if 2 ^ 1024 \<le> r then PInf else if r \<le> - (2 ^ 1024) then NInf else Fin r)"

text \<open>
  The four operations on doubles.  On finite operands the exact result is rounded; an
  infinity or a NaN propagates as IEEE 754 prescribes.  The sign of a zero is not kept:
  it only decides the sign of the infinity that a division by zero returns, and the
  estimator squares that quotient.
\<close>

fun dadd :: "fval \<Rightarrow> fval \<Rightarrow> fval" where
  "dadd (Fin a) (Fin b) = fl (a + b)"
| "dadd u v = fadd u v"

fun dsub :: "fval \<Rightarrow> fval \<Rightarrow> fval" where
  "dsub (Fin a) (Fin b) = fl (a - b)"
| "dsub u v = fsub u v"

fun dmul :: "fval \<Rightarrow> fval \<Rightarrow> fval" where
  "dmul (Fin a) (Fin b) = fl (a * b)"
| "dmul NaN _ = NaN"
| "dmul _ NaN = NaN"
| "dmul PInf (Fin b) = (if b = 0 then NaN else if 0 < b then PInf else NInf)"
| "dmul NInf (Fin b) = (if b = 0 then NaN else if 0 < b then NInf else PInf)"
| "dmul (Fin a) PInf = (if a = 0 then NaN else if 0 < a then PInf else NInf)"
| "dmul (Fin a) NInf = (if a = 0 then NaN else if 0 < a then NInf else PInf)"
| "dmul PInf PInf = PInf"
| "dmul PInf NInf = NInf"
| "dmul NInf PInf = NInf"
| "dmul NInf NInf = PInf"

fun ddiv :: "fval \<Rightarrow> fval \<Rightarrow> fval" where
  "ddiv (Fin a) (Fin b) =
     (if b \<noteq> 0 then fl (a / b) else if a = 0 then NaN else if 0 < a then PInf else NInf)"
| "ddiv NaN _ = NaN"
| "ddiv _ NaN = NaN"
| "ddiv (Fin a) PInf = Fin 0"
| "ddiv (Fin a) NInf = Fin 0"
| "ddiv PInf (Fin b) = (if 0 \<le> b then PInf else NInf)"
| "ddiv NInf (Fin b) = (if 0 \<le> b then NInf else PInf)"
| "ddiv PInf PInf = NaN"
| "ddiv PInf NInf = NaN"
| "ddiv NInf PInf = NaN"
| "ddiv NInf NInf = NaN"

text \<open>
  The one-fit estimator on \<open>X = [[x]]\<close>, \<open>y = [y]\<close>, \<open>\<Gamma> = [[g]]\<close> with \<open>x\<close>, \<open>y\<close>, \<open>g\<close> doubles.
  With one row and one feature every \<^verbatim>\<open>np.dot\<close> is a single product, so that neither the
  order in which the library adds up a longer dot product nor the order of its
  elimination steps plays a role: \<^verbatim>\<open>np.linalg.inv\<close> of \<open>[[a]]\<close> raises when the pivot \<open>a\<close> is
  zero and returns \<open>[[1/a]]\<close> otherwise.
  \<^verbatim>\<open>
    A = np.dot(X.T, X) + np.dot(Gamma.T, Gamma)
    A_inv = np.linalg.inv(A)
    b_hat = np.dot(A_inv, np.dot(X.T, y))
    y_hat = np.dot(X, b_hat)
    h = np.array([np.dot(x_i, np.dot(A_inv, x_i)) for x_i in X])
    return np.sum(((y - y_hat) / (1 - h))**2)
  \<close>
  The sum has one term, and the mean forms divide it by \<^verbatim>\<open>len(y)\<close>, which is 1.
\<close>

definition regularized_double :: "real \<Rightarrow> real \<Rightarrow> fval" where
  "regularized_double x g = dadd (dmul (Fin x) (Fin x)) (dmul (Fin g) (Fin g))"

definition inv_double :: "fval \<Rightarrow> error + fval" where
  "inv_double A = (if A = Fin 0 then Inl LinAlgError else Inr (ddiv (Fin 1) A))"

definition leverage_double :: "real \<Rightarrow> real \<Rightarrow> error + fval" where
  "leverage_double x g =
     (case inv_double (regularized_double x g) of
        Inl e \<Rightarrow> Inl e
      | Inr A_inv \<Rightarrow> Inr (dmul (Fin x) (dmul A_inv (Fin x))))"

definition compute_loocv_double :: "real \<Rightarrow> real \<Rightarrow> real \<Rightarrow> error + fval" where
  "compute_loocv_double x y g =
     (case inv_double (regularized_double x g) of
        Inl e \<Rightarrow> Inl e
      | Inr A_inv \<Rightarrow>
          (let b_hat = dmul A_inv (dmul (Fin x) (Fin y));
               y_hat = dmul (Fin x) b_hat;
               h = dmul (Fin x) (dmul A_inv (Fin x));
               r = ddiv (dsub (Fin y) y_hat) (dsub (Fin 1) h)
           in Inr (dmul r r)))"

section \<open>Correctness of the solver\<close>

lemma sum_delta_left: "k < (p::nat) \<Longrightarrow> (\<Sum>l<p. (if k = l then 1 else 0) * f l) = (f k :: real)"
proof -
  assume k: "k < p"
  have "(\<Sum>l<p. (if k = l then 1 else 0) * f l) = (\<Sum>l<p. if l = k then f l else 0)"
    by (rule sum.cong) auto
  also have "\<dots> = f k" using k sum.delta[of "{..<p}" k f] by simp
  finally show ?thesis .
qed

lemma sum_delta_right: "k < (p::nat) \<Longrightarrow> (\<Sum>l<p. f l * (if l = k then 1 else 0)) = (f k :: real)"
proof -
  assume k: "k < p"
  have "(\<Sum>l<p. f l * (if l = k then 1 else 0)) = (\<Sum>l<p. if l = k then f l else 0)"
    by (rule sum.cong) auto
  also have "\<dots> = f k" using k sum.delta[of "{..<p}" k f] by simp
  finally show ?thesis .
qed

lemma gj_inv_init: "gj_inv p A (A, \<lambda>i j. if i = j then 1 else 0)"
  unfolding gj_inv_def by (simp add: sum_delta_left)

lemma find_pivot_Some:
  "find_pivot M j p = Some r \<Longrightarrow> j \<le> r \<and> r < p \<and> M r j \<noteq> 0"
  unfolding find_pivot_def by (auto simp: find_Some_iff)

lemma find_pivot_None:
  "find_pivot M j p = None \<Longrightarrow> j \<le> r \<Longrightarrow> r < p \<Longrightarrow> M r j = 0"
  unfolding find_pivot_def by (auto simp: find_None_iff)

lemma gj_inv_swap:
  assumes "gj_inv p A (M, N)" "a < p" "b < p"
  shows "gj_inv p A (swap_rows a b M, swap_rows a b N)"
proof -
  have 1: "\<forall>k<p. \<forall>c<p. (\<Sum>l<p. N k l * A l c) = M k c"
    and 2: "\<And>v w. (\<forall>k<p. (\<Sum>c<p. M k c * v c) = (\<Sum>c<p. N k c * w c))
         \<Longrightarrow> (\<forall>k<p. (\<Sum>c<p. A k c * v c) = w k)"
    using assms(1) unfolding gj_inv_def by auto
  show ?thesis unfolding gj_inv_def
  proof (intro conjI allI impI)
    fix k c assume "k < p" "c < p"
    then show "(\<Sum>l<p. snd (swap_rows a b M, swap_rows a b N) k l * A l c)
        = fst (swap_rows a b M, swap_rows a b N) k c"
      using 1 assms(2,3) by (simp add: swap_rows_def)
  next
    fix v w k
    assume h: "\<forall>k<p. (\<Sum>c<p. fst (swap_rows a b M, swap_rows a b N) k c * v c)
        = (\<Sum>c<p. snd (swap_rows a b M, swap_rows a b N) k c * w c)" and k: "k < p"
    have "\<forall>k<p. (\<Sum>c<p. M k c * v c) = (\<Sum>c<p. N k c * w c)"
    proof (intro allI impI)
      fix r assume r: "r < p"
      show "(\<Sum>c<p. M r c * v c) = (\<Sum>c<p. N r c * w c)"
      proof (cases "r = a")
        case True
        from h assms(3) have "(\<Sum>c<p. swap_rows a b M b c * v c) = (\<Sum>c<p. swap_rows a b N b c * w c)"
          by simp
        then show ?thesis using True by (simp add: swap_rows_def split: if_splits)
      next
        case False
        show ?thesis
        proof (cases "r = b")
          case True
          from h assms(2) have "(\<Sum>c<p. swap_rows a b M a c * v c) = (\<Sum>c<p. swap_rows a b N a c * w c)"
            by simp
          then show ?thesis using True by (simp add: swap_rows_def)
        next
          case rb: False
          from h r have "(\<Sum>c<p. swap_rows a b M r c * v c) = (\<Sum>c<p. swap_rows a b N r c * w c)"
            by simp
          then show ?thesis using False rb by (simp add: swap_rows_def)
        qed
      qed
    qed
    from 2[OF this] k show "(\<Sum>c<p. A k c * v c) = w k" by simp
  qed
qed

lemma rdot_div: "(\<Sum>c<(p::nat). (r c / d) * v c) = (\<Sum>c<p. r c * v c) / (d::real)"
  by (simp add: sum_divide_distrib)

lemma rdot_sub:
  "(\<Sum>c<(p::nat). (r c - f * (s c / d)) * v c)
     = (\<Sum>c<p. r c * v c) - f * ((\<Sum>c<p. s c * v c) / (d::real))"
proof -
  have "(\<Sum>c<p. (r c - f * (s c / d)) * v c) = (\<Sum>c<p. r c * v c - f * ((s c / d) * v c))"
    by (rule sum.cong) (simp_all add: algebra_simps)
  also have "\<dots> = (\<Sum>c<p. r c * v c) - f * (\<Sum>c<p. (s c / d) * v c)"
    by (simp add: sum_subtractf sum_distrib_left)
  also have "\<dots> = (\<Sum>c<p. r c * v c) - f * ((\<Sum>c<p. s c * v c) / d)"
    by (simp only: rdot_div)
  finally show ?thesis .
qed

lemma gj_inv_reduce:
  assumes inv: "gj_inv p A (M, N)" and j: "j < p" and piv: "M j j \<noteq> 0"
  shows "gj_inv p A (reduce_col j (M, N))"
proof -
  have 1: "\<And>k c. k < p \<Longrightarrow> c < p \<Longrightarrow> (\<Sum>l<p. N k l * A l c) = M k c"
    and 2: "\<And>v w. (\<forall>k<p. (\<Sum>c<p. M k c * v c) = (\<Sum>c<p. N k c * w c))
         \<Longrightarrow> (\<forall>k<p. (\<Sum>c<p. A k c * v c) = w k)"
    using inv unfolding gj_inv_def by auto
  define M' where "M' = fst (reduce_col j (M, N))"
  define N' where "N' = snd (reduce_col j (M, N))"
  have M'j: "M' j = (\<lambda>x. M j x / M j j)" and N'j: "N' j = (\<lambda>x. N j x / M j j)"
    by (simp_all add: M'_def N'_def reduce_col_def Let_def)
  have M'k: "\<And>k. k \<noteq> j \<Longrightarrow> M' k = (\<lambda>x. M k x - M k j * (M j x / M j j))"
    and N'k: "\<And>k. k \<noteq> j \<Longrightarrow> N' k = (\<lambda>x. N k x - M k j * (N j x / M j j))"
    by (simp_all add: M'_def N'_def reduce_col_def Let_def)
  have A1: "(\<Sum>l<p. N' k l * A l c) = M' k c" if "k < p" "c < p" for k c
  proof (cases "k = j")
    case True
    then show ?thesis by (simp only: M'j N'j rdot_div 1[OF j that(2)])
  next
    case False
    then show ?thesis by (simp only: M'k[OF False] N'k[OF False] rdot_sub 1[OF j that(2)] 1[OF that])
  qed
  have A2: "(\<Sum>c<p. A k c * v c) = w k"
    if h: "\<forall>k<p. (\<Sum>c<p. M' k c * v c) = (\<Sum>c<p. N' k c * w c)" and k: "k < p" for v w k
  proof -
    have "(\<Sum>c<p. M j c * v c) / M j j = (\<Sum>c<p. N j c * w c) / M j j"
      using h[rule_format, OF j] by (simp only: M'j N'j rdot_div)
    then have rj: "(\<Sum>c<p. M j c * v c) = (\<Sum>c<p. N j c * w c)"
      using piv by simp
    have "\<forall>r<p. (\<Sum>c<p. M r c * v c) = (\<Sum>c<p. N r c * w c)"
    proof (intro allI impI)
      fix r assume r: "r < p"
      show "(\<Sum>c<p. M r c * v c) = (\<Sum>c<p. N r c * w c)"
      proof (cases "r = j")
        case True then show ?thesis using rj by simp
      next
        case False
        have "(\<Sum>c<p. M r c * v c) - M r j * ((\<Sum>c<p. M j c * v c) / M j j)
            = (\<Sum>c<p. N r c * w c) - M r j * ((\<Sum>c<p. N j c * w c) / M j j)"
          using h[rule_format, OF r] by (simp only: M'k[OF False] N'k[OF False] rdot_sub)
        then show ?thesis using rj by simp
      qed
    qed
    from 2[OF this] k show ?thesis by simp
  qed
  have "gj_inv p A (M', N')"
    unfolding gj_inv_def using A1 A2 by simp
  then show ?thesis by (simp add: M'_def N'_def)
qed

lemma unit_cols_reduce:
  assumes u: "unit_cols p j M" and j: "j < p" and r: "j \<le> r" "r < p" and piv: "M r j \<noteq> 0"
  shows "unit_cols p (Suc j) (fst (reduce_col j (swap_rows j r M, swap_rows j r N)))"
proof -
  define W where "W = swap_rows j r M"
  have Wj: "W j = M r" by (simp add: W_def swap_rows_def)
  have Wlow: "W k c = (if k = c then 1 else 0)" if "k < p" "c < j" for k c
    using u that r j unfolding unit_cols_def W_def swap_rows_def by auto
  show ?thesis unfolding unit_cols_def
  proof (intro allI impI)
    fix k c assume k: "k < p" and c: "c < Suc j"
    show "fst (reduce_col j (swap_rows j r M, swap_rows j r N)) k c = (if k = c then 1 else 0)"
    proof (cases "c = j")
      case True
      then show ?thesis using piv by (simp add: reduce_col_def Let_def W_def[symmetric] Wj)
    next
      case False
      with c have cj: "c < j" by simp
      have "W j c = 0" using Wlow[OF j cj] cj by simp
      then show ?thesis using Wlow[OF k cj] cj
        by (auto simp add: reduce_col_def Let_def W_def[symmetric])
    qed
  qed
qed

lemma gj_step_Some:
  assumes "gj_step p j (M, N) = Some S" "gj_inv p A (M, N)" "unit_cols p j M" "j < p"
  shows "gj_inv p A S \<and> unit_cols p (Suc j) (fst S)"
proof -
  from assms(1) obtain r where r: "find_pivot M j p = Some r"
    and S: "S = reduce_col j (swap_rows j r M, swap_rows j r N)"
    by (auto simp: gj_step_def split: option.splits)
  from find_pivot_Some[OF r] have rr: "j \<le> r" "r < p" "M r j \<noteq> 0" by auto
  have "gj_inv p A (swap_rows j r M, swap_rows j r N)"
    using gj_inv_swap[OF assms(2) assms(4) rr(2)] .
  moreover have "swap_rows j r M j j \<noteq> 0" using rr(3) by (simp add: swap_rows_def)
  ultimately have "gj_inv p A S" unfolding S using assms(4) by (intro gj_inv_reduce)
  moreover have "unit_cols p (Suc j) (fst S)"
    unfolding S using unit_cols_reduce[OF assms(3) assms(4) rr] .
  ultimately show ?thesis by simp
qed

lemma gauss_jordan_Some:
  "j \<le> p \<Longrightarrow> gauss_jordan p j (A, \<lambda>i j. if i = j then 1 else 0) = Some S
     \<Longrightarrow> gj_inv p A S \<and> unit_cols p j (fst S)"
proof (induction j arbitrary: S)
  case 0
  then show ?case using gj_inv_init[of p A] by (auto simp add: unit_cols_def)
next
  case (Suc j)
  from Suc.prems(2) obtain S' where S': "gauss_jordan p j (A, \<lambda>i j. if i = j then 1 else 0) = Some S'"
    and st: "gj_step p j S' = Some S"
    by (auto split: option.splits)
  from Suc.IH[OF _ S'] Suc.prems(1) have "gj_inv p A S'" "unit_cols p j (fst S')" by auto
  with gj_step_Some[of p j "fst S'" "snd S'" S A] st Suc.prems(1) show ?case by simp
qed

lemma sum_assoc_mv:
  "(\<Sum>c<(p::nat). (\<Sum>k<(q::nat). B k * A k c) * v c) = (\<Sum>k<q. (B k :: real) * (\<Sum>c<p. A k c * v c))"
proof -
  have "(\<Sum>c<p. (\<Sum>k<q. B k * A k c) * v c) = (\<Sum>c<p. \<Sum>k<q. B k * (A k c * v c))"
    by (simp add: sum_distrib_right mult.assoc)
  also have "\<dots> = (\<Sum>k<q. \<Sum>c<p. B k * (A k c * v c))" by (rule sum.swap)
  also have "\<dots> = (\<Sum>k<q. B k * (\<Sum>c<p. A k c * v c))" by (simp add: sum_distrib_left)
  finally show ?thesis .
qed

lemma unit_row_dot:
  assumes "\<forall>c<p. r c = (if k = c then 1 else 0)" "k < (p::nat)"
  shows "(\<Sum>c<p. r c * v c) = (v k :: real)"
proof -
  have "(\<Sum>c<p. r c * v c) = (\<Sum>c<p. (if k = c then 1 else 0) * v c)"
    using assms(1) by (intro sum.cong) auto
  then show ?thesis using assms(2) by (simp only: sum_delta_left)
qed

lemma gauss_jordan_inverse:
  assumes "gauss_jordan p p (A, \<lambda>i j. if i = j then 1 else 0) = Some S"
  shows "is_inverse p A (snd S)"
proof -
  from gauss_jordan_Some[OF le_refl assms]
  have gi: "gj_inv p A S" and u: "unit_cols p p (fst S)" by auto
  have 1: "\<And>k c. k < p \<Longrightarrow> c < p \<Longrightarrow> (\<Sum>l<p. snd S k l * A l c) = fst S k c"
    and 2: "\<And>v w. (\<forall>k<p. (\<Sum>c<p. fst S k c * v c) = (\<Sum>c<p. snd S k c * w c))
         \<Longrightarrow> (\<forall>k<p. (\<Sum>c<p. A k c * v c) = w k)"
    using gi unfolding gj_inv_def by auto
  have M: "\<And>k c. k < p \<Longrightarrow> c < p \<Longrightarrow> fst S k c = (if k = c then 1 else 0)"
    using u unfolding unit_cols_def by auto
  have L: "is_unit p (mat_mul p (snd S) A)"
    unfolding is_unit_def mat_mul_def using 1 M by simp
  have R: "is_unit p (mat_mul p A (snd S))"
    unfolding is_unit_def mat_mul_def
  proof (intro allI impI)
    fix i j assume i: "i < p" and j: "j < p"
    have "\<forall>k<p. (\<Sum>c<p. fst S k c * snd S c j) = (\<Sum>c<p. snd S k c * (if c = j then 1 else 0))"
    proof (intro allI impI)
      fix k assume k: "k < p"
      have "(\<Sum>c<p. fst S k c * snd S c j) = snd S k j"
        by (rule unit_row_dot[OF _ k]) (simp add: M k)
      then show "(\<Sum>c<p. fst S k c * snd S c j) = (\<Sum>c<p. snd S k c * (if c = j then 1 else 0))"
        by (simp only: sum_delta_right[OF j])
    qed
    from 2[OF this] i show "(\<Sum>k<p. A i k * snd S k j) = (if i = j then 1 else 0)" by simp
  qed
  from L R show ?thesis by (simp add: is_inverse_def)
qed

lemma gj_step_None_kernel:
  assumes st: "gj_step p j (M, N) = None" and gi: "gj_inv p A (M, N)"
    and u: "unit_cols p j M" and j: "j < p"
  shows "\<exists>v. v j = 1 \<and> (\<forall>k<p. (\<Sum>c<p. A k c * v c) = 0)"
proof -
  from st have fp: "find_pivot M j p = None" by (simp add: gj_step_def split: option.splits)
  have 2: "\<And>v w. (\<forall>k<p. (\<Sum>c<p. M k c * v c) = (\<Sum>c<p. N k c * w c))
         \<Longrightarrow> (\<forall>k<p. (\<Sum>c<p. A k c * v c) = w k)"
    using gi unfolding gj_inv_def by auto
  define v :: "nat \<Rightarrow> real" where "v = (\<lambda>c. if c < j then - M c j else if c = j then 1 else 0)"
  have Mv: "(\<Sum>c<p. M k c * v c) = 0" if k: "k < p" for k
  proof -
    have "(\<Sum>c<p. M k c * v c)
        = (\<Sum>c<p. (if c = k then (if k < j then - M k j else 0) else 0) + (if c = j then M k j else 0))"
    proof (rule sum.cong[OF refl])
      fix c assume "c \<in> {..<p}"
      then have c: "c < p" by simp
      show "M k c * v c = (if c = k then (if k < j then - M k j else 0) else 0) + (if c = j then M k j else 0)"
      proof (cases "c < j")
        case True
        then have "M k c = (if k = c then 1 else 0)" using u k unfolding unit_cols_def by simp
        then show ?thesis using True by (auto simp: v_def)
      next
        case False
        then show ?thesis by (auto simp: v_def)
      qed
    qed
    also have "\<dots> = (if k < j then - M k j else 0) + M k j"
      using k j by (simp add: sum.distrib sum.delta)
    also have "\<dots> = 0"
    proof (cases "k < j")
      case True then show ?thesis by simp
    next
      case False
      then have "M k j = 0" using find_pivot_None[OF fp _ k] by simp
      then show ?thesis using False by simp
    qed
    finally show ?thesis .
  qed
  have "\<forall>k<p. (\<Sum>c<p. M k c * v c) = (\<Sum>c<p. N k c * (\<lambda>_. 0) c)" using Mv by simp
  from 2[OF this] have "\<forall>k<p. (\<Sum>c<p. A k c * v c) = 0" by simp
  moreover have "v j = 1" by (simp add: v_def)
  ultimately show ?thesis by blast
qed

lemma gauss_jordan_None_kernel:
  "j \<le> p \<Longrightarrow> gauss_jordan p j (A, \<lambda>i j. if i = j then 1 else 0) = None
     \<Longrightarrow> \<exists>v c. c < p \<and> v c = 1 \<and> (\<forall>k<p. (\<Sum>c<p. A k c * v c) = 0)"
proof (induction j)
  case 0
  then show ?case by simp
next
  case (Suc j)
  show ?case
  proof (cases "gauss_jordan p j (A, \<lambda>i j. if i = j then 1 else 0)")
    case None
    with Suc show ?thesis by simp
  next
    case (Some S')
    with Suc.prems have st: "gj_step p j (fst S', snd S') = None" by simp
    from gauss_jordan_Some[OF _ Some] Suc.prems(1)
    have "gj_inv p A (fst S', snd S')" "unit_cols p j (fst S')" by auto
    from gj_step_None_kernel[OF st this] Suc.prems(1) obtain v
      where "v j = 1" "\<forall>k<p. (\<Sum>c<p. A k c * v c) = 0" by auto
    moreover have "j < p" using Suc.prems(1) by simp
    ultimately show ?thesis by blast
  qed
qed

lemma kernel_no_left_inverse:
  assumes L: "is_unit p (mat_mul p B A)" and c: "c < p" and k: "\<forall>k<p. (\<Sum>c<p. A k c * v c) = 0"
  shows "v c = 0"
proof -
  have "v c = (\<Sum>x<p. (\<Sum>k<p. B c k * A k x) * v x)"
    using unit_row_dot[of p "\<lambda>x. \<Sum>k<p. B c k * A k x" c v] L c
    unfolding is_unit_def mat_mul_def by simp
  also have "\<dots> = (\<Sum>k<p. B c k * (\<Sum>x<p. A k x * v x))" by (rule sum_assoc_mv)
  also have "\<dots> = 0" using k by simp
  finally show ?thesis .
qed

lemma gauss_jordan_None:
  assumes "gauss_jordan p p (A, \<lambda>i j. if i = j then 1 else 0) = None"
  shows "\<not> is_unit p (mat_mul p B A)"
proof
  assume L: "is_unit p (mat_mul p B A)"
  from gauss_jordan_None_kernel[OF le_refl assms] obtain v c
    where "c < p" "v c = 1" "\<forall>k<p. (\<Sum>c<p. A k c * v c) = 0" by blast
  with kernel_no_left_inverse[OF L this(1,3)] show False by simp
qed

lemma inverse_unique:
  assumes "is_unit p (mat_mul p B A)" "is_unit p (mat_mul p A C)" "i < p" "j < p"
  shows "B i j = C i j"
proof -
  have "B i j = (\<Sum>k<p. B i k * (\<Sum>c<p. A k c * C c j))"
  proof -
    have "(\<Sum>k<p. B i k * (\<Sum>c<p. A k c * C c j)) = (\<Sum>k<p. B i k * (if k = j then 1 else 0))"
      using assms(2,4) unfolding is_unit_def mat_mul_def by (intro sum.cong) auto
    then show ?thesis by (simp only: sum_delta_right[OF assms(4)])
  qed
  also have "\<dots> = (\<Sum>c<p. (\<Sum>k<p. B i k * A k c) * C c j)" by (rule sum_assoc_mv[symmetric])
  also have "\<dots> = C i j"
    by (rule unit_row_dot[OF _ assms(3)]) (use assms(1,3) in \<open>simp add: is_unit_def mat_mul_def\<close>)
  finally show ?thesis .
qed

lemma inv_Inr:
  assumes "inv A = Inr B"
  shows "nrows A = ncols A \<and> nrows B = nrows A \<and> ncols B = nrows A
           \<and> is_inverse (nrows A) (ent A) (ent B)"
  using assms gauss_jordan_inverse[of "nrows A" "ent A"]
  by (auto simp: inv_def identity_def split: if_splits option.splits)

lemma inv_Inl:
  assumes "inv A = Inl e"
  shows "e = LinAlgError \<and> \<not> invertible A"
  using assms gauss_jordan_None[of "nrows A" "ent A"]
  by (auto simp: inv_def identity_def invertible_def is_inverse_def split: if_splits option.splits)

lemma invertible_iff_inv: "invertible A \<longleftrightarrow> (\<exists>B. inv A = Inr B)"
proof
  assume "invertible A"
  then show "\<exists>B. inv A = Inr B" using inv_Inl[of A] by (cases "inv A") auto
next
  assume "\<exists>B. inv A = Inr B"
  then show "invertible A" using inv_Inr[of A] by (auto simp: invertible_def)
qed


section \<open>The leave-one-out identity\<close>

lemma right_inverse_apply:
  assumes "is_unit p (mat_mul p A B)" "a < p"
  shows "(\<Sum>c<p. A a c * (\<Sum>k<p. B c k * v k)) = v a"
proof -
  have "(\<Sum>c<p. A a c * (\<Sum>k<p. B c k * v k)) = (\<Sum>k<p. (\<Sum>c<p. A a c * B c k) * v k)"
    by (rule sum_assoc_mv[symmetric])
  also have "\<dots> = v a"
    by (rule unit_row_dot[OF _ assms(2)]) (use assms in \<open>simp add: is_unit_def mat_mul_def\<close>)
  finally show ?thesis .
qed

lemma left_inverse_solve:
  assumes C: "is_unit p (mat_mul p C M)" and eq: "\<forall>a<p. (\<Sum>c<p. M a c * w c) = t a" and a: "a < p"
  shows "w a = (\<Sum>c<p. C a c * t c)"
proof -
  have "(\<Sum>c<p. C a c * t c) = (\<Sum>c<p. C a c * (\<Sum>k<p. M c k * w k))"
    using eq by (intro sum.cong) auto
  also have "\<dots> = w a" by (rule right_inverse_apply[OF C a])
  finally show ?thesis by simp
qed

lemma rank_one_apply:
  assumes "\<forall>a<p. \<forall>c<p. Am a c = A a c - x a * x c" "a < (p::nat)"
  shows "(\<Sum>c<p. Am a c * w c) = (\<Sum>c<p. A a c * w c) - x a * (\<Sum>c<p. x c * (w c :: real))"
proof -
  have "(\<Sum>c<p. Am a c * w c) = (\<Sum>c<p. A a c * w c - x a * (x c * w c))"
  proof (rule sum.cong[OF refl])
    fix c assume "c \<in> {..<p}"
    then have "Am a c = A a c - x a * x c" using assms by simp
    then have "Am a c * w c = (A a c - x a * x c) * w c" by simp
    also have "\<dots> = A a c * w c - x a * (x c * w c)" by (simp add: algebra_simps)
    finally show "Am a c * w c = A a c * w c - x a * (x c * w c)" .
  qed
  then show ?thesis by (simp add: sum_subtractf sum_distrib_left)
qed

lemma loo_identity:
  fixes A B Am C :: entries and x u :: "nat \<Rightarrow> real" and yi :: real
  assumes AB: "is_unit p (mat_mul p A B)"
    and CAm: "is_unit p (mat_mul p C Am)"
    and AmC: "is_unit p (mat_mul p Am C)"
    and Am: "\<forall>a<p. \<forall>c<p. Am a c = A a c - x a * x c"
  defines "b \<equiv> \<lambda>a. \<Sum>c<p. B a c * u c"
    and "bm \<equiv> \<lambda>a. \<Sum>c<p. C a c * (u c - x c * yi)"
    and "h \<equiv> \<Sum>a<p. x a * (\<Sum>c<p. B a c * x c)"
  shows "1 - h \<noteq> 0 \<and> yi - (\<Sum>a<p. x a * bm a) = (yi - (\<Sum>a<p. x a * b a)) / (1 - h)"
proof -
  define yh where "yh = (\<Sum>a<p. x a * b a)"
  define g where "g = (\<Sum>a<p. x a * (\<Sum>c<p. C a c * x c))"
  define \<rho> where "\<rho> = yi - yh"
  have Ab: "(\<Sum>c<p. A a c * b c) = u a" if "a < p" for a
    unfolding b_def by (rule right_inverse_apply[OF AB that])
  have Ambm: "(\<Sum>c<p. Am a c * bm c) = u a - x a * yi" if "a < p" for a
    unfolding bm_def by (rule right_inverse_apply[OF AmC that])
  have Amb: "(\<Sum>c<p. Am a c * b c) = u a - x a * yh" if "a < p" for a
    using rank_one_apply[OF Am that, of b] Ab[OF that] by (simp add: yh_def)
  have d: "\<forall>a<p. (\<Sum>c<p. Am a c * (b c - bm c)) = \<rho> * x a"
  proof (intro allI impI)
    fix a assume a: "a < p"
    have "(\<Sum>c<p. Am a c * (b c - bm c)) = (\<Sum>c<p. Am a c * b c) - (\<Sum>c<p. Am a c * bm c)"
      by (simp add: algebra_simps sum_subtractf)
    then show "(\<Sum>c<p. Am a c * (b c - bm c)) = \<rho> * x a"
      using Amb[OF a] Ambm[OF a] by (simp add: \<rho>_def algebra_simps)
  qed
  have diff: "b a - bm a = \<rho> * (\<Sum>c<p. C a c * x c)" if "a < p" for a
    using left_inverse_solve[OF CAm d that] by (simp add: sum_distrib_left mult.left_commute)
  have "(\<Sum>a<p. x a * (b a - bm a)) = (\<Sum>a<p. \<rho> * (x a * (\<Sum>c<p. C a c * x c)))"
  proof (rule sum.cong[OF refl])
    fix a assume "a \<in> {..<p}"
    then have "b a - bm a = \<rho> * (\<Sum>c<p. C a c * x c)" using diff by simp
    then show "x a * (b a - bm a) = \<rho> * (x a * (\<Sum>c<p. C a c * x c))" by simp
  qed
  then have e6: "yh - (\<Sum>a<p. x a * bm a) = \<rho> * g"
    by (simp add: yh_def g_def algebra_simps sum_subtractf sum_distrib_left)
  have d7: "\<forall>a<p. (\<Sum>c<p. Am a c * (\<Sum>k<p. B c k * x k)) = (1 - h) * x a"
  proof (intro allI impI)
    fix a assume a: "a < p"
    show "(\<Sum>c<p. Am a c * (\<Sum>k<p. B c k * x k)) = (1 - h) * x a"
      using rank_one_apply[OF Am a, of "\<lambda>c. \<Sum>k<p. B c k * x k"] right_inverse_apply[OF AB a, of x]
      by (simp add: h_def algebra_simps)
  qed
  have Bx: "(\<Sum>k<p. B a k * x k) = (1 - h) * (\<Sum>c<p. C a c * x c)" if "a < p" for a
    using left_inverse_solve[OF CAm d7 that] by (simp add: sum_distrib_left mult.left_commute)
  have "(\<Sum>a<p. x a * (\<Sum>k<p. B a k * x k)) = (\<Sum>a<p. (1 - h) * (x a * (\<Sum>c<p. C a c * x c)))"
  proof (rule sum.cong[OF refl])
    fix a assume "a \<in> {..<p}"
    then have "(\<Sum>k<p. B a k * x k) = (1 - h) * (\<Sum>c<p. C a c * x c)" using Bx by simp
    then show "x a * (\<Sum>k<p. B a k * x k) = (1 - h) * (x a * (\<Sum>c<p. C a c * x c))" by simp
  qed
  then have e7: "h = (1 - h) * g"
    unfolding g_def sum_distrib_left[symmetric] by (simp add: h_def)
  have one: "(1 + g) * (1 - h) = 1" using e7 by (simp add: algebra_simps)
  then have nz: "1 - h \<noteq> 0" by auto
  have "yi - (\<Sum>a<p. x a * bm a) = \<rho> * (1 + g)" using e6 by (simp add: \<rho>_def algebra_simps)
  also have "\<dots> = \<rho> / (1 - h)"
  proof -
    have "1 + g = 1 / (1 - h)" using one nz by (simp add: nonzero_eq_divide_eq)
    then show ?thesis by simp
  qed
  finally show ?thesis using nz by (simp add: \<rho>_def yh_def)
qed

section \<open>The estimators on conforming arrays\<close>

lemma sum_delete:
  "i < n \<Longrightarrow> (\<Sum>k<n - 1. f (if k < i then k else Suc k)) = (\<Sum>k<n. f k) - (f i :: real)"
proof (induction n)
  case 0
  then show ?case by simp
next
  case (Suc m)
  show ?case
  proof (cases "i = m")
    case True
    then show ?thesis by simp
  next
    case False
    with Suc.prems have im: "i < m" by simp
    then obtain m' where m': "m = Suc m'" by (cases m) auto
    have "(\<Sum>k<Suc m - 1. f (if k < i then k else Suc k))
        = (\<Sum>k<m'. f (if k < i then k else Suc k)) + f (Suc m')"
      using im m' by simp
    also have "(\<Sum>k<m'. f (if k < i then k else Suc k)) = (\<Sum>k<m. f k) - f i"
      using Suc.IH[OF im] m' by simp
    finally show ?thesis using m' by simp
  qed
qed

lemma regularized_dims [simp]:
  "nrows (regularized X G) = ncols X" "ncols (regularized X G) = ncols X"
  by (simp_all add: regularized_def add_mm_def dot_mm_def transpose_m_def)

lemma ent_regularized:
  "ent (regularized X G) a c
     = (\<Sum>k<nrows X. ent X k a * ent X k c) + (\<Sum>k<nrows G. ent G k a * ent G k c)"
  by (simp add: regularized_def add_mm_def dot_mm_def transpose_m_def)

lemma ent_regularized_delete:
  assumes "i < nrows X"
  shows "ent (regularized (delete_row X i) G) a c
     = ent (regularized X G) a c - ent X i a * ent X i c"
proof -
  have "(\<Sum>k<nrows X - 1. ent X (if k < i then k else Suc k) a * ent X (if k < i then k else Suc k) c)
      = (\<Sum>k<nrows X. ent X k a * ent X k c) - ent X i a * ent X i c"
    by (rule sum_delete[OF assms, of "\<lambda>k. ent X k a * ent X k c"])
  then show ?thesis by (simp add: ent_regularized delete_row_def)
qed

lemma regularized_delete_dims [simp]:
  "nrows (regularized (delete_row X i) G) = ncols X"
  by (simp add: delete_row_def)

lemma loo_residual_value:
  assumes conf: "conforming X y G"
    and A: "inv (regularized X G) = Inr B"
    and i: "i < nrows X"
    and Am: "inv (regularized (delete_row X i) G) = Inr C"
  defines "y_hat \<equiv> dot_mv X (dot_mv B (dot_mv (transpose_m X) y))"
    and "h \<equiv> leverages X B"
  shows "1 - elt h i \<noteq> 0 \<and>
         loo_residual X y G i = Inr ((elt y i - elt y_hat i) / (1 - elt h i))"
proof -
  let ?p = "ncols X"
  let ?n = "nrows X"
  from inv_Inr[OF A] have Bd: "nrows B = ?p" "ncols B = ?p"
    and Binv: "is_inverse ?p (ent (regularized X G)) (ent B)" by simp_all
  from inv_Inr[OF Am] have Cd: "nrows C = ?p" "ncols C = ?p"
    and Cinv: "is_inverse ?p (ent (regularized (delete_row X i) G)) (ent C)"
    by (simp_all add: delete_row_def)
  define u where "u = (\<lambda>c. \<Sum>k<?n. ent X k c * elt y k)"
  have um: "(\<Sum>k<?n - 1. ent X (if k < i then k else Suc k) c * elt y (if k < i then k else Suc k))
      = u c - ent X i c * elt y i" for c
    unfolding u_def by (rule sum_delete[OF i, of "\<lambda>k. ent X k c * elt y k"])
  have id: "1 - (\<Sum>a<?p. ent X i a * (\<Sum>c<?p. ent B a c * ent X i c)) \<noteq> 0 \<and>
     elt y i - (\<Sum>a<?p. ent X i a * (\<Sum>c<?p. ent C a c * (u c - ent X i c * elt y i)))
       = (elt y i - (\<Sum>a<?p. ent X i a * (\<Sum>c<?p. ent B a c * u c)))
           / (1 - (\<Sum>a<?p. ent X i a * (\<Sum>c<?p. ent B a c * ent X i c)))"
    by (rule loo_identity[where A = "ent (regularized X G)"
          and Am = "ent (regularized (delete_row X i) G)"])
      (use Binv Cinv in \<open>simp_all add: is_inverse_def ent_regularized_delete[OF i]\<close>)
  have h: "elt h i = (\<Sum>a<?p. ent X i a * (\<Sum>c<?p. ent B a c * ent X i c))"
    by (simp add: h_def leverages_def dot_vv_def dot_mv_def row_def Bd)
  have yh: "elt y_hat i = (\<Sum>a<?p. ent X i a * (\<Sum>c<?p. ent B a c * u c))"
    using conf by (simp add: y_hat_def dot_mv_def transpose_m_def Bd u_def conforming_def)
  have lr: "loo_residual X y G i
      = Inr (elt y i - (\<Sum>a<?p. ent X i a * (\<Sum>c<?p. ent C a c * (u c - ent X i c * elt y i))))"
    unfolding loo_residual_def Let_def regularized_def[symmetric] Am
    using um
    by (simp add: dot_vv_def dot_mv_def row_def transpose_m_def delete_row_def delete_at_def Cd)
  show ?thesis using id by (simp add: h yh lr)
qed

lemma loocv_loop_sum:
  "(\<forall>i\<in>set js. loo_residual X y G i = Inr (r i))
     \<Longrightarrow> loocv_loop X y G js acc = Inr (acc + (\<Sum>i\<leftarrow>js. (r i)\<^sup>2))"
  by (induction js arbitrary: acc) (simp_all add: add.assoc)

lemma loocv_loop_upt:
  assumes "\<forall>i<n. loo_residual X y G i = Inr (r i)"
  shows "loocv_loop X y G [0..<n] 0 = Inr (\<Sum>i<n. (r i)\<^sup>2)"
proof -
  have "loocv_loop X y G [0..<n] 0 = Inr (0 + (\<Sum>i\<leftarrow>[0..<n]. (r i)\<^sup>2))"
    by (rule loocv_loop_sum) (use assms in simp)
  then show ?thesis by (simp add: interv_sum_list_conv_sum_set_nat atLeast0LessThan)
qed

lemma fsum_finite:
  "(\<forall>i<n. d i \<noteq> 0) \<Longrightarrow> fsum n (\<lambda>i. fsquare (fdiv (a i) (d i))) = Fin (\<Sum>i<n. (a i / d i)\<^sup>2)"
  by (induction n) (simp_all add: fdiv_def)

lemma compute_loocv_regularized:
  "compute_loocv X y G = loocv_sum X y (regularized X G)"
  "compute_loocv_efficient X y G =
     (case loocv_sum X y (regularized X G) of Inl e \<Rightarrow> Inl e | Inr s \<Rightarrow> Inr (fdivr s (real (len y))))"
  by (simp_all add: compute_loocv_def compute_loocv_efficient_def regularized_def)

lemma loocv_values:
  assumes conf: "conforming X y G"
    and A: "invertible (regularized X G)"
    and Am: "\<forall>i<nrows X. invertible (regularized (delete_row X i) G)"
  shows "\<exists>s. loocv_loop X y G [0..<len y] 0 = Inr s \<and> loocv_sum X y (regularized X G) = Inr (Fin s)"
proof -
  from A obtain B where B: "inv (regularized X G) = Inr B"
    by (auto simp: invertible_iff_inv)
  define y_hat where "y_hat = dot_mv X (dot_mv B (dot_mv (transpose_m X) y))"
  define h where "h = leverages X B"
  define r where "r = (\<lambda>i. (elt y i - elt y_hat i) / (1 - elt h i))"
  have n: "len y = nrows X" using conf by (simp add: conforming_def)
  have each: "1 - elt h i \<noteq> 0 \<and> loo_residual X y G i = Inr (r i)" if i: "i < nrows X" for i
  proof -
    from Am i obtain C where C: "inv (regularized (delete_row X i) G) = Inr C"
      by (auto simp: invertible_iff_inv)
    from loo_residual_value[OF conf B i C] show ?thesis by (simp add: r_def y_hat_def h_def)
  qed
  have loop: "loocv_loop X y G [0..<len y] 0 = Inr (\<Sum>i<nrows X. (r i)\<^sup>2)"
    unfolding n by (rule loocv_loop_upt) (use each in simp)
  have "loocv_sum X y (regularized X G)
      = Inr (fsum (nrows X) (\<lambda>i. fsquare (fdiv (elt y i - elt y_hat i) (1 - elt h i))))"
    by (simp add: loocv_sum_def B Let_def y_hat_def h_def n)
  also have "fsum (nrows X) (\<lambda>i. fsquare (fdiv (elt y i - elt y_hat i) (1 - elt h i)))
      = Fin (\<Sum>i<nrows X. (r i)\<^sup>2)"
    unfolding r_def by (rule fsum_finite) (use each in simp)
  finally show ?thesis using loop by simp
qed


text \<open>Unfolding sets for evaluating the model on array literals.\<close>

lemmas array_simps = array2_def array1_def transpose_m_def dot_mm_def dot_mv_def dot_vv_def
  add_mm_def scale_m_def row_def delete_row_def delete_at_def identity_def diag_def
  leverages_def regularized_def

lemmas gj_simps = inv_def gj_step_def find_pivot_def reduce_col_def swap_rows_def Let_def


lemma gram_quad:
  "(\<Sum>a<(p::nat). v a * (\<Sum>c<p. (\<Sum>k<(n::nat). M k a * M k c) * v c))
     = (\<Sum>k<n. (\<Sum>a<p. M k a * (v a :: real))\<^sup>2)"
proof -
  have "(\<Sum>k<n. (\<Sum>a<p. M k a * v a)\<^sup>2) = (\<Sum>k<n. \<Sum>a<p. \<Sum>c<p. (M k a * v a) * (M k c * v c))"
    by (simp add: power2_eq_square sum_product)
  also have "\<dots> = (\<Sum>a<p. \<Sum>k<n. \<Sum>c<p. (M k a * v a) * (M k c * v c))"
    by (rule sum.swap)
  also have "\<dots> = (\<Sum>a<p. \<Sum>c<p. \<Sum>k<n. (M k a * v a) * (M k c * v c))"
    by (rule sum.cong[OF refl]) (rule sum.swap)
  also have "\<dots> = (\<Sum>a<p. v a * (\<Sum>c<p. (\<Sum>k<n. M k a * M k c) * v c))"
    by (simp add: sum_distrib_left sum_distrib_right ac_simps)
  finally show ?thesis by simp
qed

lemma regularized_quad:
  "(\<Sum>a<p. v a * (\<Sum>c<p. ent (regularized X G) a c * v c))
     = (\<Sum>k<nrows X. (\<Sum>a<p. ent X k a * v a)\<^sup>2) + (\<Sum>k<nrows G. (\<Sum>a<p. ent G k a * v a)\<^sup>2)"
proof -
  have "(\<Sum>a<p. v a * (\<Sum>c<p. ent (regularized X G) a c * v c))
      = (\<Sum>a<p. v a * (\<Sum>c<p. (\<Sum>k<nrows X. ent X k a * ent X k c) * v c))
        + (\<Sum>a<p. v a * (\<Sum>c<p. (\<Sum>k<nrows G. ent G k a * ent G k c) * v c))"
    by (simp add: ent_regularized distrib_left distrib_right sum.distrib)
  then show ?thesis by (simp only: gram_quad)
qed

lemma inv_Inl_kernel:
  assumes "inv A = Inl e" "nrows A = ncols A"
  shows "\<exists>v c. c < nrows A \<and> v c = 1 \<and> (\<forall>k<nrows A. (\<Sum>c<nrows A. ent A k c * v c) = 0)"
  using assms gauss_jordan_None_kernel[OF le_refl, of "nrows A" "ent A"]
  by (auto simp: inv_def identity_def split: if_splits option.splits)


lemma fsum_cong: "(\<forall>i<n. f i = g i) \<Longrightarrow> fsum n f = fsum n g"
  by (induction n) simp_all

lemma loocv_sum_formula:
  assumes dims: "nrows A = ncols X" "ncols A = ncols X" "len y = nrows X"
    and Ainv: "is_inverse (ncols X) (ent A) Ainv"
  shows "loocv_sum X y A
     = Inr (fsum (nrows X)
         (\<lambda>i. fsquare (fdiv (elt y i - spec_y_hat X y Ainv i) (1 - spec_leverage X Ainv i))))"
proof -
  let ?p = "ncols X"
  have "invertible A" using dims Ainv by (auto simp: invertible_def)
  then obtain B where B: "inv A = Inr B" by (auto simp: invertible_iff_inv)
  from inv_Inr[OF B] dims have Bd: "nrows B = ?p" "ncols B = ?p"
    and Binv: "is_inverse ?p (ent A) (ent B)" by simp_all
  have eq: "ent B a c = Ainv a c" if "a < ?p" "c < ?p" for a c
    using inverse_unique[of ?p "ent B" "ent A" Ainv a c] Binv Ainv that
    by (simp add: is_inverse_def)
  have b: "elt (dot_mv B (dot_mv (transpose_m X) y)) a = spec_b_hat X y Ainv a" if "a < ?p" for a
  proof -
    have "elt (dot_mv B (dot_mv (transpose_m X) y)) a
        = (\<Sum>c<?p. ent B a c * (\<Sum>k<nrows X. ent X k c * elt y k))"
      by (simp add: dot_mv_def transpose_m_def Bd)
    also have "\<dots> = (\<Sum>c<?p. Ainv a c * (\<Sum>k<nrows X. ent X k c * elt y k))"
      by (rule sum.cong) (simp_all add: eq that)
    finally show ?thesis by (simp add: spec_b_hat_def)
  qed
  have yh: "elt (dot_mv X (dot_mv B (dot_mv (transpose_m X) y))) i = spec_y_hat X y Ainv i" for i
  proof -
    have "elt (dot_mv X (dot_mv B (dot_mv (transpose_m X) y))) i
        = (\<Sum>a<?p. ent X i a * elt (dot_mv B (dot_mv (transpose_m X) y)) a)"
      by (simp add: dot_mv_def)
    also have "\<dots> = (\<Sum>a<?p. ent X i a * spec_b_hat X y Ainv a)"
      by (rule sum.cong) (simp_all add: b)
    finally show ?thesis by (simp add: spec_y_hat_def)
  qed
  have h: "elt (leverages X B) i = spec_leverage X Ainv i" for i
  proof -
    have "elt (leverages X B) i = (\<Sum>a<?p. ent X i a * (\<Sum>c<?p. ent B a c * ent X i c))"
      by (simp add: leverages_def dot_vv_def dot_mv_def row_def Bd)
    also have "\<dots> = (\<Sum>a<?p. ent X i a * (\<Sum>c<?p. Ainv a c * ent X i c))"
      by (intro sum.cong refl arg_cong2[where f = "(*)"]) (simp add: eq)
    finally show ?thesis by (simp add: spec_leverage_def)
  qed
  show ?thesis by (simp add: loocv_sum_def B Let_def yh h dims)
qed

lemma fsum_spec_loocv:
  assumes "\<forall>i<nrows X. spec_leverage X Ainv i \<noteq> 1"
  shows "fsum (nrows X)
         (\<lambda>i. fsquare (fdiv (elt y i - spec_y_hat X y Ainv i) (1 - spec_leverage X Ainv i)))
       = Fin (spec_loocv X y Ainv)"
  unfolding spec_loocv_def by (rule fsum_finite) (use assms in simp)

lemma fsum_not_finite:
  "i < n \<Longrightarrow> d i = 0 \<Longrightarrow> fsum n (\<lambda>i. fsquare (fdiv (a i) (d i))) \<in> {PInf, NaN}"
proof (induction n)
  case 0
  then show ?case by simp
next
  case (Suc n)
  have cls: "fsum m (\<lambda>i. fsquare (fdiv (a i) (d i))) \<noteq> NInf" for m
  proof (induction m)
    case 0 show ?case by simp
  next
    case (Suc m)
    then show ?case
      by (cases "fsum m (\<lambda>i. fsquare (fdiv (a i) (d i)))") (auto simp: fdiv_def)
  qed
  show ?case
  proof (cases "i = n")
    case True
    with Suc.prems cls[of n] show ?thesis
      by (cases "fsum n (\<lambda>i. fsquare (fdiv (a i) (d i)))") (auto simp: fdiv_def)
  next
    case False
    with Suc have "fsum n (\<lambda>i. fsquare (fdiv (a i) (d i))) \<in> {PInf, NaN}" by simp
    then show ?thesis by (auto simp: fdiv_def)
  qed
qed

lemma ent_gram: "ent (dot_mm (transpose_m G) G) a c = (\<Sum>k<nrows G. ent G k a * ent G k c)"
  by (simp add: dot_mm_def transpose_m_def)

lemma regularized_quad_gram:
  "(\<Sum>a<p. v a * (\<Sum>c<p. ent (regularized X G) a c * v c))
     = (\<Sum>k<nrows X. (\<Sum>a<p. ent X k a * v a)\<^sup>2)
       + (\<Sum>a<p. v a * (\<Sum>c<p. ent (dot_mm (transpose_m G) G) a c * v c))"
  by (simp only: regularized_quad ent_gram gram_quad)

lemma kernel_quad_zero:
  assumes "\<forall>k<p. (\<Sum>c<p. A k c * v c) = 0"
  shows "(\<Sum>a<p. v a * (\<Sum>c<p. A a c * v c)) = (0::real)"
  by (rule sum.neutral) (use assms in simp)

lemma pos_def_inv:
  assumes pd: "pos_def (ncols X) (ent (dot_mm (transpose_m G) G))"
  shows "\<exists>B. inv (regularized X G) = Inr B"
proof (cases "inv (regularized X G)")
  case (Inr B)
  then show ?thesis by blast
next
  case (Inl e)
  let ?p = "ncols X"
  from inv_Inl_kernel[OF Inl] obtain v c where c: "c < ?p" and vc: "v c = 1"
    and ker: "\<forall>k<?p. (\<Sum>c<?p. ent (regularized X G) k c * v c) = 0" by auto
  have "\<exists>c<?p. v c \<noteq> 0" using c vc by auto
  then have "0 < (\<Sum>a<?p. v a * (\<Sum>c<?p. ent (dot_mm (transpose_m G) G) a c * v c))"
    using pd unfolding pos_def_def by blast
  moreover have "0 \<le> (\<Sum>k<nrows X. (\<Sum>a<?p. ent X k a * v a)\<^sup>2)"
    by (rule sum_nonneg) simp
  ultimately have "0 < (\<Sum>a<?p. v a * (\<Sum>c<?p. ent (regularized X G) a c * v c))"
    unfolding regularized_quad_gram by linarith
  with kernel_quad_zero[OF ker] show ?thesis by simp
qed

lemma leverage_in_unit_interval:
  assumes pd: "pos_def (ncols X) (ent (dot_mm (transpose_m G) G))"
    and B: "inv (regularized X G) = Inr B"
    and i: "i < nrows X"
  shows "0 \<le> elt (leverages X B) i \<and> elt (leverages X B) i < 1"
proof -
  let ?p = "ncols X"
  let ?A = "ent (regularized X G)"
  let ?Q = "ent (dot_mm (transpose_m G) G)"
  from inv_Inr[OF B] have Bd: "nrows B = ?p" "ncols B = ?p"
    and Binv: "is_inverse ?p ?A (ent B)" by simp_all
  define u where "u = (\<lambda>a. \<Sum>c<?p. ent B a c * ent X i c)"
  define h where "h = (\<Sum>a<?p. ent X i a * u a)"
  have hl: "elt (leverages X B) i = h"
    by (simp add: leverages_def dot_vv_def dot_mv_def row_def Bd h_def u_def)
  have Au: "(\<Sum>c<?p. ?A a c * u c) = ent X i a" if "a < ?p" for a
    unfolding u_def using Binv that by (intro right_inverse_apply) (simp add: is_inverse_def)
  have "(\<Sum>a<?p. u a * (\<Sum>c<?p. ?A a c * u c)) = (\<Sum>a<?p. u a * ent X i a)"
    by (rule sum.cong) (simp_all add: Au)
  also have "\<dots> = h" by (simp add: h_def mult.commute)
  finally have quad: "h = (\<Sum>k<nrows X. (\<Sum>a<?p. ent X k a * u a)\<^sup>2)
       + (\<Sum>a<?p. u a * (\<Sum>c<?p. ?Q a c * u c))"
    by (simp only: regularized_quad_gram)
  have "(\<Sum>a<?p. ent X i a * u a)\<^sup>2 \<le> (\<Sum>k<nrows X. (\<Sum>a<?p. ent X k a * u a)\<^sup>2)"
    by (rule member_le_sum) (use i in simp_all)
  then have ge: "h\<^sup>2 + (\<Sum>a<?p. u a * (\<Sum>c<?p. ?Q a c * u c)) \<le> h"
    using quad by (simp add: h_def)
  show ?thesis
  proof (cases "\<exists>c<?p. u c \<noteq> 0")
    case True
    then have "0 < (\<Sum>a<?p. u a * (\<Sum>c<?p. ?Q a c * u c))"
      using pd unfolding pos_def_def by blast
    with ge have lt: "h\<^sup>2 < h" by simp
    have "0 \<le> h\<^sup>2" by simp
    with lt have h0: "0 < h" by linarith
    have "h * h < h * 1" using lt by (simp add: power2_eq_square)
    then have "h < 1" using h0 by (simp only: mult_less_cancel_left_pos)
    with h0 show ?thesis by (simp add: hl)
  next
    case False
    then have "h = 0" unfolding h_def by (intro sum.neutral) auto
    then show ?thesis by (simp add: hl)
  qed
qed

lemma ncols_delete_row [simp]: "ncols (delete_row X i) = ncols X"
  by (simp add: delete_row_def)


section \<open>The verifier loops\<close>

lemma slope_fails_Fin: "slope_fails (Fin fx) (Fin f0) = negative_slope fx f0"
  by (simp add: slope_fails_def negative_slope_def Let_def fdiv_def delta_x_def)

lemma check_directions_two:
  assumes "f \<bar>a\<bar> = Inr (Fin fa)" "f \<bar>b\<bar> = Inr (Fin fb)"
  shows "check_directions f (Fin f0) [a, b]
     = (if negative_slope fa f0 \<or> negative_slope fb f0 then Inl AssertionError else Inr ())"
  using assms by (simp add: slope_fails_Fin)

lemma verify_components_iff:
  assumes "\<forall>i\<in>set js. \<forall>x\<in>{elt alpha i, \<bar>elt alpha i - delta_x\<bar>, \<bar>elt alpha i + delta_x\<bar>}.
             loocv_at X y alpha i x = Inr (Fin (F i x))"
  shows "verify_components X y alpha js
     = (if \<exists>i\<in>set js. \<exists>x\<in>{\<bar>elt alpha i - delta_x\<bar>, \<bar>elt alpha i + delta_x\<bar>}.
              negative_slope (F i x) (F i (elt alpha i))
        then Inl AssertionError else Inr ())"
  using assms
proof (induction js)
  case Nil
  then show ?case by simp
next
  case (Cons i js)
  have f0: "loocv_at X y alpha i (elt alpha i) = Inr (Fin (F i (elt alpha i)))"
    and fm: "loocv_at X y alpha i \<bar>elt alpha i - delta_x\<bar> = Inr (Fin (F i \<bar>elt alpha i - delta_x\<bar>))"
    and fp: "loocv_at X y alpha i \<bar>elt alpha i + delta_x\<bar> = Inr (Fin (F i \<bar>elt alpha i + delta_x\<bar>))"
    using Cons.prems by simp_all
  have IH: "verify_components X y alpha js
     = (if \<exists>i\<in>set js. \<exists>x\<in>{\<bar>elt alpha i - delta_x\<bar>, \<bar>elt alpha i + delta_x\<bar>}.
              negative_slope (F i x) (F i (elt alpha i))
        then Inl AssertionError else Inr ())"
    using Cons.IH Cons.prems by simp
  show ?case
    by (simp add: Let_def f0 check_directions_two[OF fm fp] IH del: check_directions.simps)
qed

section \<open>Sample statistics\<close>

lemma np_mean_sample:
  assumes "vs \<noteq> []"
  shows "np_mean vs = Fin (sample_mean vs)"
  using assms by (simp add: np_mean_def sample_mean_def fdiv_def)

lemma np_std_sample:
  assumes "2 \<le> length vs"
  shows "np_std vs 1 = Fin (sample_sd vs)"
proof -
  have ne: "vs \<noteq> []" using assms by auto
  have n1: "real (length vs - 1) = real (length vs) - 1" using assms by (simp add: of_nat_diff)
  have nz: "real (length vs) - 1 \<noteq> 0" using assms by simp
  have pos: "0 \<le> (\<Sum>x\<leftarrow>vs. (x - sample_mean vs)\<^sup>2) / (real (length vs) - 1)"
    using assms by (intro divide_nonneg_nonneg sum_list_nonneg) auto
  show ?thesis
    using nz pos assms by (simp add: np_std_def np_mean_sample[OF ne] fdiv_def n1 sample_sd_def)
qed

section \<open>Plane rotations, orthogonality and the determinant\<close>

lemma ent_rotation_step:
  "ent (rotation_step n i t) k c =
     (if k = i \<and> c = i then cos t
      else if k = i \<and> c = Suc i then - sin t
      else if k = Suc i \<and> c = i then sin t
      else if k = Suc i \<and> c = Suc i then cos t
      else if k = c then 1 else 0)"
  by (simp add: rotation_step_def set_ent_def identity_def Let_def)

lemma rotation_step_dims [simp]:
  "nrows (rotation_step n i t) = n" "ncols (rotation_step n i t) = n"
  by (simp_all add: rotation_step_def set_ent_def identity_def Let_def)

lemma rotation_loop_dims [simp]:
  "nrows (rotation_loop n u k) = n" "ncols (rotation_loop n u k) = n"
  by (induction k) (simp_all add: identity_def dot_mm_def)

lemma sum_three_deltas:
  assumes "i < n" "j < n" "i \<noteq> j"
  shows "(\<Sum>k<(n::nat). f k * ((if k = i then x else 0) + (if k = j then y else 0)
            + (if k \<noteq> i \<and> k \<noteq> j \<and> k = c then 1 else 0)))
       = f i * x + f j * y + (if c \<noteq> i \<and> c \<noteq> j \<and> c < n then (f c :: real) else 0)"
proof -
  have "(\<Sum>k<n. f k * ((if k = i then x else 0) + (if k = j then y else 0)
            + (if k \<noteq> i \<and> k \<noteq> j \<and> k = c then 1 else 0)))
      = (\<Sum>k<n. (if k = i then f k * x else 0)) + (\<Sum>k<n. (if k = j then f k * y else 0))
        + (\<Sum>k<n. (if k = c then (if c \<noteq> i \<and> c \<noteq> j then f k else 0) else 0))"
    unfolding sum.distrib[symmetric] by (rule sum.cong) (auto simp: algebra_simps)
  also have "\<dots> = f i * x + f j * y + (if c \<noteq> i \<and> c \<noteq> j \<and> c < n then f c else 0)"
    using assms by (simp add: sum.delta)
  finally show ?thesis .
qed

lemma ent_dot_rotation_step:
  assumes "Suc i < n" "ncols R = n" "c < n"
  shows "ent (dot_mm R (rotation_step n i t)) r c
     = colop i (cos t) (sin t) (- sin t) (cos t) (ent R) r c"
proof -
  let ?x = "if c = i then cos t else if c = Suc i then - sin t else 0"
  let ?y = "if c = i then sin t else if c = Suc i then cos t else 0"
  have "ent (dot_mm R (rotation_step n i t)) r c
      = (\<Sum>k<n. ent R r k * ent (rotation_step n i t) k c)"
    by (simp add: dot_mm_def assms(2))
  also have "\<dots> = (\<Sum>k<n. ent R r k * ((if k = i then ?x else 0) + (if k = Suc i then ?y else 0)
            + (if k \<noteq> i \<and> k \<noteq> Suc i \<and> k = c then 1 else 0)))"
    by (rule sum.cong[OF refl]) (auto simp: ent_rotation_step)
  also have "\<dots> = ent R r i * ?x + ent R r (Suc i) * ?y
        + (if c \<noteq> i \<and> c \<noteq> Suc i \<and> c < n then ent R r c else 0)"
    by (rule sum_three_deltas) (use assms in auto)
  also have "\<dots> = colop i (cos t) (sin t) (- sin t) (cos t) (ent R) r c"
    using assms by (auto simp: colop_def)
  finally show ?thesis .
qed

lemma det_cong:
  "(\<forall>r<n. \<forall>c<n. A r c = B r c) \<Longrightarrow> det n A = det n B"
proof (induction n arbitrary: A B)
  case 0
  then show ?case by simp
next
  case (Suc n)
  show ?case unfolding det.simps
  proof (rule sum.cong[OF refl])
    fix j assume "j \<in> {..<Suc n}"
    then have j: "j < Suc n" by simp
    have "det n (minor A j) = det n (minor B j)"
      by (rule Suc.IH) (use Suc.prems in \<open>simp add: minor_def\<close>)
    moreover have "A 0 j = B 0 j" using Suc.prems j by simp
    ultimately show "(- 1) ^ j * A 0 j * det n (minor A j) = (- 1) ^ j * B 0 j * det n (minor B j)"
      by simp
  qed
qed

lemma det_identity: "det n (\<lambda>i j. if i = j then 1 else 0) = 1"
proof (induction n)
  case 0
  show ?case by simp
next
  case (Suc n)
  have m: "minor (\<lambda>i j. if i = j then 1 else 0) 0 = (\<lambda>i j. if i = j then 1 else 0)"
    by (simp add: minor_def fun_eq_iff)
  have "det (Suc n) (\<lambda>i j. if i = j then 1 else 0)
      = (\<Sum>j<Suc n. if j = 0 then det n (minor (\<lambda>i j. if i = j then 1 else 0) j) else 0)"
    unfolding det.simps by (rule sum.cong) auto
  also have "\<dots> = det n (minor (\<lambda>i j. if i = j then 1 else 0) 0)"
    by (simp add: sum.delta del: sum.lessThan_Suc)
  finally show ?case by (simp add: m Suc.IH)
qed

lemma det_col_linear:
  "i < n \<Longrightarrow>
   det n (\<lambda>r c. if c = i then \<alpha> * U r + \<beta> * V r else W r c)
     = \<alpha> * det n (\<lambda>r c. if c = i then U r else W r c)
       + \<beta> * det n (\<lambda>r c. if c = i then V r else W r c)"
proof (induction n arbitrary: i U V W)
  case 0
  then show ?case by simp
next
  case (Suc n)
  let ?M = "\<lambda>r c. if c = i then \<alpha> * U r + \<beta> * V r else W r c"
  let ?MU = "\<lambda>r c. if c = i then U r else W r c"
  let ?MV = "\<lambda>r c. if c = i then V r else W r c"
  have tm: "(- 1) ^ j * ?M 0 j * det n (minor ?M j)
      = \<alpha> * ((- 1) ^ j * ?MU 0 j * det n (minor ?MU j))
        + \<beta> * ((- 1) ^ j * ?MV 0 j * det n (minor ?MV j))" if j: "j < Suc n" for j
  proof -
    consider "j = i" | "j < i" | "i < j" by linarith
    then show ?thesis
    proof cases
      case 1
      have "minor ?M j = minor ?MU j" "minor ?MV j = minor ?MU j"
        using 1 by (auto simp: minor_def fun_eq_iff)
      then show ?thesis using 1 by (simp add: algebra_simps)
    next
      case 2
      let ?W' = "\<lambda>r c. W (Suc r) (if c < j then c else Suc c)"
      have m: "minor ?M j = (\<lambda>r c. if c = i - 1 then \<alpha> * U (Suc r) + \<beta> * V (Suc r) else ?W' r c)"
        "minor ?MU j = (\<lambda>r c. if c = i - 1 then U (Suc r) else ?W' r c)"
        "minor ?MV j = (\<lambda>r c. if c = i - 1 then V (Suc r) else ?W' r c)"
        using 2 by (auto simp: minor_def fun_eq_iff)
      have "i - 1 < n" using Suc.prems 2 by simp
      from Suc.IH[OF this, of "\<lambda>r. U (Suc r)" "\<lambda>r. V (Suc r)" ?W']
      show ?thesis using 2 unfolding m by (simp add: algebra_simps)
    next
      case 3
      let ?W' = "\<lambda>r c. W (Suc r) (if c < j then c else Suc c)"
      have m: "minor ?M j = (\<lambda>r c. if c = i then \<alpha> * U (Suc r) + \<beta> * V (Suc r) else ?W' r c)"
        "minor ?MU j = (\<lambda>r c. if c = i then U (Suc r) else ?W' r c)"
        "minor ?MV j = (\<lambda>r c. if c = i then V (Suc r) else ?W' r c)"
        using 3 by (auto simp: minor_def fun_eq_iff)
      have "i < n" using j 3 by simp
      from Suc.IH[OF this, of "\<lambda>r. U (Suc r)" "\<lambda>r. V (Suc r)" ?W']
      show ?thesis using 3 unfolding m by (simp add: algebra_simps)
    qed
  qed
  have "det (Suc n) ?M = (\<Sum>j<Suc n. \<alpha> * ((- 1) ^ j * ?MU 0 j * det n (minor ?MU j))
        + \<beta> * ((- 1) ^ j * ?MV 0 j * det n (minor ?MV j)))"
    unfolding det.simps by (rule sum.cong[OF refl]) (use tm in simp)
  also have "\<dots> = \<alpha> * det (Suc n) ?MU + \<beta> * det (Suc n) ?MV"
    unfolding det.simps sum.distrib sum_distrib_left ..
  finally show ?case .
qed

lemma sum_split_two:
  assumes "i < n" "j < n" "i \<noteq> j"
  shows "(\<Sum>k<(n::nat). f k) = f i + f j + (\<Sum>k\<in>{..<n} - {i} - {j}. (f k :: real))"
proof -
  have "(\<Sum>k<n. f k) = f i + (\<Sum>k\<in>{..<n} - {i}. f k)"
    by (rule sum.remove) (use assms in auto)
  also have "(\<Sum>k\<in>{..<n} - {i}. f k) = f j + (\<Sum>k\<in>{..<n} - {i} - {j}. f k)"
    by (rule sum.remove) (use assms in auto)
  finally show ?thesis by simp
qed

lemma det_colop:
  "Suc i < n \<Longrightarrow> det n (colop i a b c d A) = (a * d - b * c) * det n A"
proof (induction n arbitrary: i A)
  case 0
  then show ?case by simp
next
  case (Suc n)
  let ?C = "colop i a b c d A"
  define P where "P = det n (minor A (Suc i))"
  define Q where "Q = det n (minor A i)"
  define t where "t = (\<lambda>j. (- 1) ^ j * A 0 j * det n (minor A j))"
  define t' where "t' = (\<lambda>j. (- 1) ^ j * ?C 0 j * det n (minor ?C j))"
  have i: "i < n" using Suc.prems by simp
  have other: "t' j = (a * d - b * c) * t j" if j: "j \<in> {..<Suc n} - {i} - {Suc i}" for j
  proof -
    from j have jn: "j < Suc n" and ji: "j \<noteq> i" "j \<noteq> Suc i" by auto
    have c0: "?C 0 j = A 0 j" using ji by (simp add: colop_def)
    consider "j < i" | "Suc i < j" using ji by linarith
    then have "det n (minor ?C j) = (a * d - b * c) * det n (minor A j)"
    proof cases
      case 1
      have m: "minor ?C j = colop (i - 1) a b c d (minor A j)"
        using 1 by (auto simp: minor_def colop_def fun_eq_iff)
      have "Suc (i - 1) < n" using 1 i by simp
      from Suc.IH[OF this] show ?thesis unfolding m .
    next
      case 2
      have m: "minor ?C j = colop i a b c d (minor A j)"
        using 2 by (auto simp: minor_def colop_def fun_eq_iff)
      have "Suc i < n" using 2 jn by simp
      from Suc.IH[OF this] show ?thesis unfolding m .
    qed
    then show ?thesis by (simp add: t_def t'_def c0)
  qed
  have mi: "minor ?C i
      = (\<lambda>r col. if col = i then c * A (Suc r) i + d * A (Suc r) (Suc i) else minor A i r col)"
    by (auto simp: minor_def colop_def fun_eq_iff)
  have msi: "minor ?C (Suc i)
      = (\<lambda>r col. if col = i then a * A (Suc r) i + b * A (Suc r) (Suc i) else minor A i r col)"
    by (auto simp: minor_def colop_def fun_eq_iff)
  have mU: "(\<lambda>r col. if col = i then A (Suc r) i else minor A i r col) = minor A (Suc i)"
    by (auto simp: minor_def fun_eq_iff)
  have mV: "(\<lambda>r col. if col = i then A (Suc r) (Suc i) else minor A i r col) = minor A i"
    by (auto simp: minor_def fun_eq_iff)
  have di: "det n (minor ?C i) = c * P + d * Q"
    unfolding mi det_col_linear[OF i] mU mV P_def Q_def ..
  have dsi: "det n (minor ?C (Suc i)) = a * P + b * Q"
    unfolding msi det_col_linear[OF i] mU mV P_def Q_def ..
  have c0i: "?C 0 i = a * A 0 i + b * A 0 (Suc i)" "?C 0 (Suc i) = c * A 0 i + d * A 0 (Suc i)"
    by (simp_all add: colop_def)
  have ti: "t' i = (- 1) ^ i * (a * A 0 i + b * A 0 (Suc i)) * (c * P + d * Q)"
    unfolding t'_def di c0i ..
  have tsi: "t' (Suc i) = - ((- 1) ^ i) * (c * A 0 i + d * A 0 (Suc i)) * (a * P + b * Q)"
    unfolding t'_def dsi c0i by simp
  have two: "t' i + t' (Suc i) = (a * d - b * c) * (t i + t (Suc i))"
    unfolding ti tsi by (simp add: t_def P_def Q_def algebra_simps)
  have "det (Suc n) ?C = (\<Sum>j<Suc n. t' j)" by (simp add: t'_def)
  also have "\<dots> = t' i + t' (Suc i) + (\<Sum>j\<in>{..<Suc n} - {i} - {Suc i}. t' j)"
    by (rule sum_split_two) (use Suc.prems in auto)
  also have "(\<Sum>j\<in>{..<Suc n} - {i} - {Suc i}. t' j)
      = (\<Sum>j\<in>{..<Suc n} - {i} - {Suc i}. (a * d - b * c) * t j)"
    by (rule sum.cong[OF refl]) (rule other)
  also have "t' i + t' (Suc i) + (\<Sum>j\<in>{..<Suc n} - {i} - {Suc i}. (a * d - b * c) * t j)
      = (a * d - b * c) * (t i + t (Suc i) + (\<Sum>j\<in>{..<Suc n} - {i} - {Suc i}. t j))"
    unfolding two sum_distrib_left[symmetric] by (simp add: algebra_simps)
  also have "t i + t (Suc i) + (\<Sum>j\<in>{..<Suc n} - {i} - {Suc i}. t j) = (\<Sum>j<Suc n. t j)"
    by (rule sum_split_two[symmetric]) (use Suc.prems in auto)
  also have "(\<Sum>j<Suc n. t j) = det (Suc n) A" by (simp add: t_def)
  finally show ?case .
qed

lemma gram_colop:
  assumes G: "\<forall>a<n. \<forall>b<n. (\<Sum>k<n. A k a * A k b) = (if a = b then 1 else (0::real))"
    and i: "Suc i < n" and cs: "c\<^sup>2 + s\<^sup>2 = 1" and a: "a < n" and b: "b < n"
  shows "(\<Sum>k<n. colop i c s (- s) c A k a * colop i c s (- s) c A k b) = (if a = b then 1 else 0)"
proof -
  define X where "X = (\<lambda>a. if a = i then c else if a = Suc i then - s else 0)"
  define Y where "Y = (\<lambda>a. if a = i then s else if a = Suc i then c else 0)"
  define Z where "Z = (\<lambda>a. if a = i \<or> a = Suc i then 0 else (1::real))"
  define g where "g = (\<lambda>a b. \<Sum>k<n. A k a * A k b)"
  have col: "colop i c s (- s) c A k a = X a * A k i + Y a * A k (Suc i) + Z a * A k a" for k a
    by (auto simp: colop_def X_def Y_def Z_def)
  have "(\<Sum>k<n. colop i c s (- s) c A k a * colop i c s (- s) c A k b)
      = X a * X b * g i i + X a * Y b * g i (Suc i) + X a * Z b * g i b
        + Y a * X b * g (Suc i) i + Y a * Y b * g (Suc i) (Suc i) + Y a * Z b * g (Suc i) b
        + Z a * X b * g a i + Z a * Y b * g a (Suc i) + Z a * Z b * g a b"
    unfolding col g_def by (simp add: algebra_simps sum.distrib sum_distrib_left)
  also have "\<dots> = X a * X b + Y a * Y b + Z a * Z b * (if a = b then 1 else 0)"
  proof -
    have gd: "g p q = (if p = q then 1 else 0)" if "p < n" "q < n" for p q
      using G that by (simp add: g_def)
    have ii: "i < n" using i by simp
    show ?thesis
      unfolding gd[OF ii ii] gd[OF ii i] gd[OF i ii] gd[OF i i] gd[OF ii b] gd[OF i b]
        gd[OF a ii] gd[OF a i] gd[OF a b]
      by (auto simp: Z_def)
  qed
  also have "\<dots> = (if a = b then 1 else 0)"
    using cs by (auto simp: X_def Y_def Z_def power2_eq_square algebra_simps)
  finally show ?thesis .
qed

lemma rotation_loop_props:
  "k \<le> n - 1 \<Longrightarrow>
     (\<forall>a<n. \<forall>b<n. (\<Sum>r<n. ent (rotation_loop n u k) r a * ent (rotation_loop n u k) r b)
        = (if a = b then 1 else 0))
     \<and> det n (ent (rotation_loop n u k)) = 1"
proof (induction k)
  case 0
  have "\<And>a b. a < n \<Longrightarrow> (\<Sum>r<n. (if r = a then 1 else 0) * (if r = b then 1 else 0))
      = (if a = b then 1 else (0::real))"
  proof -
    fix a b :: nat assume a: "a < n"
    have "(\<Sum>r<n. (if r = a then 1 else 0) * (if r = b then 1 else 0))
        = (\<Sum>r<n. if r = a then (if a = b then 1 else 0) else (0::real))"
      by (rule sum.cong) auto
    then show "(\<Sum>r<n. (if r = a then 1 else 0) * (if r = b then 1 else 0))
      = (if a = b then 1 else (0::real))" using a by (simp add: sum.delta)
  qed
  then show ?case by (simp add: identity_def det_identity)
next
  case (Suc k)
  let ?R = "rotation_loop n u k"
  let ?t = "u k * 2 * pi"
  let ?C = "colop k (cos ?t) (sin ?t) (- sin ?t) (cos ?t) (ent ?R)"
  from Suc.prems have k: "Suc k < n" by simp
  from Suc.IH Suc.prems
  have G: "\<forall>a<n. \<forall>b<n. (\<Sum>r<n. ent ?R r a * ent ?R r b) = (if a = b then 1 else 0)"
    and D: "det n (ent ?R) = 1" by simp_all
  have e: "ent (rotation_loop n u (Suc k)) r c = ?C r c" if "c < n" for r c
    using ent_dot_rotation_step[OF k _ that, of ?R] by simp
  have cs: "(cos ?t)\<^sup>2 + (sin ?t)\<^sup>2 = 1" by (rule sin_cos_squared_add2)
  have 1: "\<forall>a<n. \<forall>b<n.
      (\<Sum>r<n. ent (rotation_loop n u (Suc k)) r a * ent (rotation_loop n u (Suc k)) r b)
        = (if a = b then 1 else 0)"
  proof (intro allI impI)
    fix a b assume a: "a < n" and b: "b < n"
    have "(\<Sum>r<n. ent (rotation_loop n u (Suc k)) r a * ent (rotation_loop n u (Suc k)) r b)
        = (\<Sum>r<n. ?C r a * ?C r b)"
      by (simp only: e[OF a] e[OF b])
    also have "\<dots> = (if a = b then 1 else 0)" by (rule gram_colop[OF G k cs a b])
    finally show "(\<Sum>r<n. ent (rotation_loop n u (Suc k)) r a * ent (rotation_loop n u (Suc k)) r b)
        = (if a = b then 1 else 0)" .
  qed
  have "det n (ent (rotation_loop n u (Suc k))) = det n ?C"
    by (intro det_cong allI impI e)
  also have "\<dots> = (cos ?t * cos ?t - sin ?t * (- sin ?t)) * det n (ent ?R)"
    by (rule det_colop[OF k])
  also have "\<dots> = 1" using cs by (simp add: D power2_eq_square)
  finally show ?case using 1 by simp
qed

section \<open>The verifier on the store\<close>

lemma extends_refl [simp]: "extends s s"
  by (simp add: extends_def)

lemma extends_trans: "extends s s1 \<Longrightarrow> extends s1 s2 \<Longrightarrow> extends s s2"
  by (auto simp: extends_def)

lemma extends_cells: "extends s s' \<Longrightarrow> a < next_addr s \<Longrightarrow> cells s' a = cells s a"
  by (simp add: extends_def)

lemma extends_addr: "extends s s' \<Longrightarrow> a < next_addr s \<Longrightarrow> a < next_addr s'"
  by (simp add: extends_def)

lemma loocv_at_st_sound:
  assumes "cells s xa = Some (Arr2 X)" "cells s ya = Some (Arr1 y)" "cells s aa = Some (Arr1 alpha)"
    and "xa < next_addr s" "ya < next_addr s" "aa < next_addr s"
  shows "fst (loocv_at_st xa ya aa i x s) = loocv_at X y alpha i x
       \<and> extends s (snd (loocv_at_st xa ya aa i x s))"
  using assms
  by (auto simp: loocv_at_st_def loocv_at_def alloc_def store_set_item_def Let_def extends_def)

lemma check_directions_st_sound:
  assumes f: "\<And>x s'. extends s s' \<Longrightarrow> fst (f x s') = g x \<and> extends s' (snd (f x s'))"
    and "extends s s'"
  shows "fst (check_directions_st f f0 xs s') = check_directions g f0 xs
       \<and> extends s' (snd (check_directions_st f f0 xs s'))"
  using assms(2)
proof (induction xs arbitrary: s')
  case Nil
  then show ?case by simp
next
  case (Cons x xs)
  obtain r s1 where r: "f \<bar>x\<bar> s' = (r, s1)" by (cases "f \<bar>x\<bar> s'")
  from f[OF Cons.prems, of "\<bar>x\<bar>"] r have g: "g \<bar>x\<bar> = r" and e1: "extends s' s1" by simp_all
  show ?case
  proof (cases r)
    case (Inl e)
    then show ?thesis using r g e1 by simp
  next
    case (Inr fx)
    show ?thesis
    proof (cases "slope_fails fx f0")
      case True
      then show ?thesis using r g e1 Inr by simp
    next
      case False
      have "extends s s1" using Cons.prems e1 by (rule extends_trans)
      from Cons.IH[OF this] have "fst (check_directions_st f f0 xs s1) = check_directions g f0 xs"
        and "extends s1 (snd (check_directions_st f f0 xs s1))" by simp_all
      moreover have "f \<bar>x\<bar> s' = (Inr fx, s1)" "g \<bar>x\<bar> = Inr fx" using r g Inr by simp_all
      ultimately show ?thesis using False extends_trans[OF e1] by simp
    qed
  qed
qed

lemma verify_components_st_sound:
  assumes X: "cells s xa = Some (Arr2 X)" and y: "cells s ya = Some (Arr1 y)"
    and al: "cells s aa = Some (Arr1 alpha)"
    and lt: "xa < next_addr s" "ya < next_addr s" "aa < next_addr s"
    and "extends s s'"
  shows "fst (verify_components_st xa ya aa js s') = verify_components X y alpha js
       \<and> extends s' (snd (verify_components_st xa ya aa js s'))"
  using assms(7)
proof (induction js arbitrary: s')
  case Nil
  then show ?case by simp
next
  case (Cons i js)
  have f: "fst (loocv_at_st xa ya aa i x t) = loocv_at X y alpha i x
       \<and> extends t (snd (loocv_at_st xa ya aa i x t))" if "extends s t" for x t
    by (rule loocv_at_st_sound)
      (use that X y al lt in \<open>simp_all add: extends_cells extends_addr\<close>)
  have al': "cells s' aa = Some (Arr1 alpha)"
    using Cons.prems al lt by (simp add: extends_cells)
  obtain r s1 where r: "loocv_at_st xa ya aa i (elt alpha i) s' = (r, s1)"
    by (cases "loocv_at_st xa ya aa i (elt alpha i) s'")
  from f[OF Cons.prems, of "elt alpha i"] r
  have g: "loocv_at X y alpha i (elt alpha i) = r" and e1: "extends s' s1" by simp_all
  have s1: "extends s s1" using Cons.prems e1 by (rule extends_trans)
  show ?case
  proof (cases r)
    case (Inl e)
    then show ?thesis using r g e1 al' by (simp add: Let_def)
  next
    case (Inr f0)
    let ?xs = "[elt alpha i - delta_x, elt alpha i + delta_x]"
    obtain q s2 where q: "check_directions_st (loocv_at_st xa ya aa i) f0 ?xs s1 = (q, s2)"
      by (cases "check_directions_st (loocv_at_st xa ya aa i) f0 ?xs s1")
    from check_directions_st_sound[of s "loocv_at_st xa ya aa i" "loocv_at X y alpha i" s1 f0 ?xs]
      f s1 q
    have cq: "check_directions (loocv_at X y alpha i) f0 ?xs = q" and e2: "extends s1 s2"
      by simp_all
    have s2: "extends s s2" using s1 e2 by (rule extends_trans)
    have e02: "extends s' s2" using e1 e2 by (rule extends_trans)
    have r': "loocv_at_st xa ya aa i (elt alpha i) s' = (Inr f0, s1)"
      and g': "loocv_at X y alpha i (elt alpha i) = Inr f0" using r g Inr by simp_all
    show ?thesis
    proof (cases q)
      case (Inl e)
      have q': "check_directions_st (loocv_at_st xa ya aa i) f0 ?xs s1 = (Inl e, s2)"
        and cq': "check_directions (loocv_at X y alpha i) f0 ?xs = Inl e" using q cq Inl by simp_all
      show ?thesis
        using e02 al'
        by (simp add: Let_def r' g' q' cq' del: check_directions.simps check_directions_st.simps)
    next
      case qr: (Inr u)
      have q': "check_directions_st (loocv_at_st xa ya aa i) f0 ?xs s1 = (Inr u, s2)"
        and cq': "check_directions (loocv_at X y alpha i) f0 ?xs = Inr u" using q cq qr by simp_all
      from Cons.IH[OF s2]
      have "fst (verify_components_st xa ya aa js s2) = verify_components X y alpha js"
        and "extends s2 (snd (verify_components_st xa ya aa js s2))" by simp_all
      then show ?thesis
        using extends_trans[OF e02] al'
        by (simp add: Let_def r' g' q' cq' del: check_directions.simps check_directions_st.simps)
    qed
  qed
qed


section \<open>Rounding to double precision\<close>

lemma powr_powi: "(2::real) powr (of_int k) = 2 powi k"
  by (simp add: powr_real_of_int')

text \<open>The spacing of the doubles in a binade, and below the least normal double.\<close>

lemma quantum_normal:
  assumes "2 powi e \<le> \<bar>x\<bar>" "\<bar>x\<bar> < 2 powi (e + 1)" "- 1022 \<le> e"
  shows "quantum x = 2 powi (e - 52)"
proof -
  have pos: "0 < \<bar>x\<bar>" using assms(1) by (smt (verit) zero_less_power_int)
  have a: "2 powr (of_int e) \<le> \<bar>x\<bar>" using assms(1) by (simp only: powr_powi)
  have b: "\<bar>x\<bar> < 2 powr (of_int (e + 1))" using assms(2) by (simp only: powr_powi)
  have "of_int e \<le> log 2 \<bar>x\<bar>" using a pos by (simp add: le_log_iff)
  moreover have "log 2 \<bar>x\<bar> < of_int (e + 1)" using b pos by (simp add: log_less_iff)
  ultimately have "\<lfloor>log 2 \<bar>x\<bar>\<rfloor> = e" by (simp add: floor_eq_iff)
  then show ?thesis using assms(3) by (simp add: quantum_def max_def)
qed


lemma round_even_near:
  assumes "of_int m \<le> r" "r < of_int m + 1/2"
  shows "round_even r = m"
proof -
  have "\<lfloor>r\<rfloor> = m" using assms by (simp add: floor_eq_iff)
  then show ?thesis using assms by (simp add: round_even_def Let_def)
qed

lemma round_even_above:
  assumes "of_int m - 1/2 < r" "r < of_int m"
  shows "round_even r = m"
proof -
  have "\<lfloor>r\<rfloor> = m - 1" using assms by (simp add: floor_eq_iff)
  then show ?thesis using assms by (simp add: round_even_def Let_def)
qed

lemma fl_value:
  assumes "quantum x = q" and "round_even (x / q) = m" and "x \<noteq> 0"
    and "\<bar>of_int m * q\<bar> < 2 ^ 1024"
  shows "fl x = Fin (of_int m * q)"
  using assms by (simp add: fl_def Let_def abs_less_iff not_le)

lemma fl_zero: "fl 0 = Fin 0"
  by (simp add: fl_def)

lemma fl_one: "fl 1 = Fin 1"
proof -
  have q: "quantum 1 = 2 powi (0 - 52)" by (rule quantum_normal) simp_all
  have r: "round_even (1 / 2 powi (0 - 52)) = 2 ^ 52" by (rule round_even_near) simp_all
  show ?thesis using fl_value[OF q r] by simp
qed

subsection \<open>\<open>X = [[1]]\<close>, \<open>\<Gamma> = [[2 powi (-30)]]\<close>: the regularization is rounded away\<close>

lemma fl_small_square: "fl (1 / 2 ^ 30 * (1 / 2 ^ 30)) = Fin (1 / 2 ^ 60)"
proof -
  have q: "quantum (1 / 2 ^ 30 * (1 / 2 ^ 30)) = 2 powi (- 60 - 52)"
    by (rule quantum_normal) simp_all
  have r: "round_even (1 / 2 ^ 30 * (1 / 2 ^ 30) / 2 powi (- 60 - 52)) = 2 ^ 52"
    by (rule round_even_near) simp_all
  show ?thesis using fl_value[OF q r] by simp
qed

lemma fl_absorbed: "fl (1 + 1 / 2 ^ 60) = Fin 1"
proof -
  have q: "quantum (1 + 1 / 2 ^ 60) = 2 powi (0 - 52)" by (rule quantum_normal) simp_all
  have r: "round_even ((1 + 1 / 2 ^ 60) / 2 powi (0 - 52)) = 2 ^ 52"
    by (rule round_even_near) simp_all
  show ?thesis using fl_value[OF q r] by simp
qed

lemma regularized_double_one: "regularized_double 1 (1 / 2 ^ 30) = Fin 1"
proof -
  have 1: "dmul (Fin 1) (Fin 1) = Fin 1" by (simp add: fl_one)
  have 2: "dmul (Fin (1 / 2 ^ 30)) (Fin (1 / 2 ^ 30)) = Fin (1 / 2 ^ 60)"
    by (simp only: dmul.simps fl_small_square)
  have 3: "dadd (Fin 1) (Fin (1 / 2 ^ 60)) = Fin 1" by (simp only: dadd.simps fl_absorbed)
  show ?thesis by (simp only: regularized_double_def 1 2 3)
qed

lemma leverage_double_one: "leverage_double 1 (1 / 2 ^ 30) = Inr (Fin 1)"
  unfolding leverage_double_def regularized_double_one
  by (simp add: inv_double_def fl_one)

lemma loocv_double_one: "compute_loocv_double 1 1 (1 / 2 ^ 30) = Inr NaN"
  unfolding compute_loocv_double_def regularized_double_one
  by (simp add: inv_double_def fl_one fl_zero)

subsection \<open>\<open>X = [[31 \<cdot> 2 ^ 30]]\<close>, \<open>\<Gamma> = [[1]]\<close>: a leverage above 1\<close>

lemma fl_big_square: "fl (33285996544 * 33285996544) = Fin 1107957565927179943936"
proof -
  have q: "quantum (33285996544 * 33285996544) = 2 powi (69 - 52)"
    by (rule quantum_normal) simp_all
  have r: "round_even (33285996544 * 33285996544 / 2 powi (69 - 52)) = 8453045394341888"
    by (rule round_even_near) simp_all
  show ?thesis using fl_value[OF q r] by simp
qed

lemma fl_big_absorbed: "fl (1107957565927179943936 + 1) = Fin 1107957565927179943936"
proof -
  have q: "quantum (1107957565927179943936 + 1) = 2 powi (69 - 52)"
    by (rule quantum_normal) simp_all
  have r: "round_even ((1107957565927179943936 + 1) / 2 powi (69 - 52)) = 8453045394341888"
    by (rule round_even_near) simp_all
  show ?thesis using fl_value[OF q r] by simp
qed

lemma fl_big_inverse:
  "fl (1 / 1107957565927179943936) = Fin (4798840810018094 / 2 ^ 122)"
proof -
  have q: "quantum (1 / 1107957565927179943936) = 2 powi (- 70 - 52)"
    by (rule quantum_normal) simp_all
  have r: "round_even (1 / 1107957565927179943936 / 2 powi (- 70 - 52)) = 4798840810018094"
    by (rule round_even_above) simp_all
  show ?thesis using fl_value[OF q r] by simp
qed

lemma fl_big_product:
  "fl (4798840810018094 / 2 ^ 122 * 33285996544) = Fin (4648877034705029 / 2 ^ 87)"
proof -
  have q: "quantum (4798840810018094 / 2 ^ 122 * 33285996544) = 2 powi (- 35 - 52)"
    by (rule quantum_normal) simp_all
  have r: "round_even (4798840810018094 / 2 ^ 122 * 33285996544 / 2 powi (- 35 - 52))
             = 4648877034705029"
    by (rule round_even_above) simp_all
  show ?thesis using fl_value[OF q r] by simp
qed

lemma fl_big_leverage:
  "fl (33285996544 * (4648877034705029 / 2 ^ 87)) = Fin (1 + 1 / 2 ^ 52)"
proof -
  have q: "quantum (33285996544 * (4648877034705029 / 2 ^ 87)) = 2 powi (0 - 52)"
    by (rule quantum_normal) simp_all
  have r: "round_even (33285996544 * (4648877034705029 / 2 ^ 87) / 2 powi (0 - 52))
             = 4503599627370497"
    by (rule round_even_above) simp_all
  show ?thesis using fl_value[OF q r] by simp
qed

lemma leverage_double_big: "leverage_double 33285996544 1 = Inr (Fin (1 + 1 / 2 ^ 52))"
proof -
  have 1: "dmul (Fin 33285996544) (Fin 33285996544) = Fin 1107957565927179943936"
    by (simp only: dmul.simps fl_big_square)
  have 2: "dmul (Fin 1) (Fin 1) = Fin 1" by (simp add: fl_one)
  have 3: "dadd (Fin 1107957565927179943936) (Fin 1) = Fin 1107957565927179943936"
    by (simp only: dadd.simps fl_big_absorbed)
  have A: "regularized_double 33285996544 1 = Fin 1107957565927179943936"
    by (simp only: regularized_double_def 1 2 3)
  have "ddiv (Fin 1) (Fin 1107957565927179943936) = fl (1 / 1107957565927179943936)"
    by simp
  then have 4: "inv_double (Fin 1107957565927179943936) = Inr (Fin (4798840810018094 / 2 ^ 122))"
    by (simp only: inv_double_def fl_big_inverse) simp
  have 5: "dmul (Fin (4798840810018094 / 2 ^ 122)) (Fin 33285996544)
             = Fin (4648877034705029 / 2 ^ 87)"
    by (simp only: dmul.simps fl_big_product)
  have 6: "dmul (Fin 33285996544) (Fin (4648877034705029 / 2 ^ 87)) = Fin (1 + 1 / 2 ^ 52)"
    by (simp only: dmul.simps fl_big_leverage)
  show ?thesis by (simp only: leverage_double_def A 4 5 6 sum.case)
qed

subsection \<open>\<open>X = [[2 powi (-600)]]\<close>, \<open>\<Gamma> = [[2 powi (-600)]]\<close>: the squares underflow\<close>





section \<open>Claims\<close>

subsection \<open>C1: the efficient and the brute-force estimator agree\<close>

text \<open>
  C1 (as amended).  For conforming \<open>X\<close> (\<open>n \<times> p\<close>), \<open>y\<close> (length \<open>n\<close>) and
  \<open>\<Gamma>\<close>, if \<open>X\<^sup>T X + \<Gamma>\<^sup>T \<Gamma>\<close> is invertible and so is every leave-one-out matrix
  \<open>X\<^sub>-\<^sub>i\<^sup>T X\<^sub>-\<^sub>i + \<Gamma>\<^sup>T \<Gamma>\<close>, then over exact arithmetic the brute-force estimator
  (\<open>n\<close> refits) and the one-fit estimator with the leverage correction return the same
  finite score: the sum forms always, the mean forms for \<open>n \<ge> 1\<close>.
\<close>

theorem loocv_equivalence:
  assumes "conforming X y Gamma"
    and "invertible (regularized X Gamma)"
    and "\<forall>i<nrows X. invertible (regularized (delete_row X i) Gamma)"
  shows "compute_loocv_slow X y Gamma = compute_loocv X y Gamma
       \<and> (0 < nrows X \<longrightarrow>
            compute_loocv_brute_force X y Gamma = compute_loocv_efficient X y Gamma)
       \<and> (\<exists>s. compute_loocv X y Gamma = Inr (Fin s))"
proof -
  from loocv_values[OF assms] obtain s
    where s: "loocv_loop X y Gamma [0..<len y] 0 = Inr s"
      "loocv_sum X y (regularized X Gamma) = Inr (Fin s)" by blast
  have n: "len y = nrows X" using assms(1) by (simp add: conforming_def)
  show ?thesis
    using s n
    by (simp add: compute_loocv_slow_def compute_loocv_brute_force_def
        compute_loocv_regularized fdiv_def)
qed

text \<open>The theorem at a two-row design, where both mean forms return \<open>1/2\<close>.\<close>

theorem loocv_equivalence_witness:
  "compute_loocv_slow (array2 [[1], [0]]) (array1 [1, 0]) (array2 [[1]])
       = compute_loocv (array2 [[1], [0]]) (array1 [1, 0]) (array2 [[1]])
   \<and> compute_loocv_brute_force (array2 [[1], [0]]) (array1 [1, 0]) (array2 [[1]])
       = compute_loocv_efficient (array2 [[1], [0]]) (array1 [1, 0]) (array2 [[1]])
   \<and> compute_loocv_efficient (array2 [[1], [0]]) (array1 [1, 0]) (array2 [[1]]) = Inr (Fin (1 / 2))"
proof -
  let ?X = "array2 [[1], [0]]" and ?y = "array1 [1, 0]" and ?G = "array2 [[1]]"
  have c: "conforming ?X ?y ?G" by (simp add: conforming_def array2_def array1_def)
  have a: "invertible (regularized ?X ?G)"
    unfolding invertible_iff_inv by (simp add: array_simps gj_simps numeral_2_eq_2)
  have m: "\<forall>i<nrows ?X. invertible (regularized (delete_row ?X i) ?G)"
    unfolding invertible_iff_inv
    by (simp add: array_simps gj_simps numeral_2_eq_2 All_less_Suc)
  have n: "0 < nrows ?X" by (simp add: array2_def)
  have v: "compute_loocv_efficient ?X ?y ?G = Inr (Fin (1 / 2))"
    by (simp add: compute_loocv_efficient_def loocv_sum_def array_simps gj_simps fdiv_def numeral_2_eq_2)
  from loocv_equivalence[OF c a m] n v show ?thesis by simp
qed

text \<open>
  Invertibility of \<open>X\<^sup>T X + \<Gamma>\<^sup>T \<Gamma>\<close> alone is not enough: for \<open>X = [[1]]\<close>, \<open>y = [1]\<close>,
  \<open>\<Gamma> = [[0]]\<close> the regularized matrix is \<open>[[1]]\<close>, the only leverage is 1, the one-fit
  estimators return NaN (\<open>0/0\<close>) and the brute-force estimators raise, since the
  leave-one-out matrix is \<open>[[0]]\<close>.
\<close>

theorem loocv_equivalence_counterexample:
  "conforming (array2 [[1]]) (array1 [1]) (array2 [[0]])
   \<and> invertible (regularized (array2 [[1]]) (array2 [[0]]))
   \<and> compute_loocv_slow (array2 [[1]]) (array1 [1]) (array2 [[0]]) = Inl LinAlgError
   \<and> compute_loocv (array2 [[1]]) (array1 [1]) (array2 [[0]]) = Inr NaN
   \<and> compute_loocv_brute_force (array2 [[1]]) (array1 [1]) (array2 [[0]]) = Inl LinAlgError
   \<and> compute_loocv_efficient (array2 [[1]]) (array1 [1]) (array2 [[0]]) = Inr NaN"
  unfolding invertible_iff_inv
  by (simp add: conforming_def compute_loocv_slow_def compute_loocv_def compute_loocv_brute_force_def
      compute_loocv_efficient_def loocv_sum_def loo_residual_def array_simps gj_simps fdiv_def)

subsection \<open>C2: the closed formula of the one-fit estimator\<close>

text \<open>
  C2.  For \<open>X\<close> (\<open>n \<times> p\<close>), \<open>y\<close> (length \<open>n\<close>) and a regularization contribution
  \<open>D\<close> (\<open>p \<times> p\<close>) such that \<open>A = X\<^sup>T X + D\<close> has the inverse \<open>A\<^sup>-\<^sup>1\<close>, the one-fit
  estimator returns exactly \<open>\<Sum>\<^sub>i ((y\<^sub>i - y'\<^sub>i) / (1 - h\<^sub>i))\<^sup>2\<close> (the sum form) or that
  sum divided by \<open>n\<close> (the mean form), with \<open>b = A\<^sup>-\<^sup>1 X\<^sup>T y\<close>, \<open>y' = X b\<close> and
  \<open>h\<^sub>i = x\<^sub>i\<^sup>T A\<^sup>-\<^sup>1 x\<^sub>i\<close>; the solver is called once.  The sum is a finite number when
  no leverage is 1, and the float infinity or NaN of its division by zero otherwise.
\<close>

theorem compute_loocv_formula:
  assumes "len y = nrows X" and "nrows D = ncols X" and "ncols D = ncols X"
    and "is_inverse (ncols X) (ent (add_mm (dot_mm (transpose_m X) X) D)) Ainv"
  shows "compute_loocv_D X y D = Inr (fdivr (spec_loocv_float X y Ainv) (real (nrows X)))
     \<and> (\<forall>Gamma. D = dot_mm (transpose_m Gamma) Gamma \<longrightarrow>
            compute_loocv X y Gamma = Inr (spec_loocv_float X y Ainv)
          \<and> compute_loocv_efficient X y Gamma
              = Inr (fdivr (spec_loocv_float X y Ainv) (real (nrows X))))
     \<and> ((\<forall>i<nrows X. spec_leverage X Ainv i \<noteq> 1) \<longrightarrow>
            spec_loocv_float X y Ainv = Fin (spec_loocv X y Ainv)
          \<and> (0 < nrows X \<longrightarrow>
                compute_loocv_D X y D = Inr (Fin (spec_loocv X y Ainv / real (nrows X)))))
     \<and> ((\<exists>i<nrows X. spec_leverage X Ainv i = 1) \<longrightarrow>
            spec_loocv_float X y Ainv \<in> {PInf, NaN})"
proof -
  let ?A = "add_mm (dot_mm (transpose_m X) X) D"
  have dims: "nrows ?A = ncols X" "ncols ?A = ncols X"
    by (simp_all add: add_mm_def dot_mm_def transpose_m_def)
  have s: "loocv_sum X y ?A = Inr (spec_loocv_float X y Ainv)"
    unfolding spec_loocv_float_def by (rule loocv_sum_formula[OF dims assms(1,4)])
  have 1: "compute_loocv_D X y D = Inr (fdivr (spec_loocv_float X y Ainv) (real (nrows X)))"
    by (simp add: compute_loocv_D_def s assms(1))
  have 2: "compute_loocv X y Gamma = Inr (spec_loocv_float X y Ainv)
          \<and> compute_loocv_efficient X y Gamma
              = Inr (fdivr (spec_loocv_float X y Ainv) (real (nrows X)))"
    if "D = dot_mm (transpose_m Gamma) Gamma" for Gamma
    using s by (simp add: compute_loocv_def compute_loocv_efficient_def that assms(1))
  have 3: "spec_loocv_float X y Ainv = Fin (spec_loocv X y Ainv)"
    if "\<forall>i<nrows X. spec_leverage X Ainv i \<noteq> 1"
    unfolding spec_loocv_float_def by (rule fsum_spec_loocv[OF that])
  have 4: "spec_loocv_float X y Ainv \<in> {PInf, NaN}"
    if "\<exists>i<nrows X. spec_leverage X Ainv i = 1"
  proof -
    from that obtain i where "i < nrows X" "1 - spec_leverage X Ainv i = 0" by auto
    then show ?thesis unfolding spec_loocv_float_def by (rule fsum_not_finite)
  qed
  show ?thesis using 1 2 3 4 by (simp add: fdiv_def)
qed

text \<open>The theorem at a two-row design with \<open>D = [[1]]\<close>, where \<open>A\<^sup>-\<^sup>1 = [[1/2]]\<close>.\<close>

theorem compute_loocv_formula_witness:
  "compute_loocv_D (array2 [[1], [0]]) (array1 [1, 0]) (dot_mm (transpose_m (array2 [[1]])) (array2 [[1]]))
      = Inr (Fin (1 / 2))
   \<and> compute_loocv (array2 [[1], [0]]) (array1 [1, 0]) (array2 [[1]]) = Inr (Fin 1)
   \<and> spec_loocv (array2 [[1], [0]]) (array1 [1, 0]) (\<lambda>i j. 1 / 2) = 1"
proof -
  let ?X = "array2 [[1], [0]]" and ?y = "array1 [1, 0]" and ?G = "array2 [[1]]"
  let ?D = "dot_mm (transpose_m ?G) ?G"
  let ?B = "\<lambda>i j::nat. 1 / 2 :: real"
  have a: "len ?y = nrows ?X" by (simp add: array2_def array1_def)
  have b: "nrows ?D = ncols ?X" by (simp add: array_simps)
  have c: "ncols ?D = ncols ?X" by (simp add: array_simps)
  have d: "is_inverse (ncols ?X) (ent (add_mm (dot_mm (transpose_m ?X) ?X) ?D)) ?B"
    by (simp add: is_inverse_def is_unit_def mat_mul_def array_simps numeral_2_eq_2)
  have h: "\<forall>i<nrows ?X. spec_leverage ?X ?B i \<noteq> 1"
    by (simp add: spec_leverage_def array_simps numeral_2_eq_2 All_less_Suc)
  have n: "0 < nrows ?X" by (simp add: array2_def)
  have v: "spec_loocv ?X ?y ?B = 1"
    by (simp add: spec_loocv_def spec_y_hat_def spec_b_hat_def spec_leverage_def array_simps
        numeral_2_eq_2)
  have r: "real (nrows ?X) = 2" by (simp add: array2_def)
  note t = compute_loocv_formula[OF a b c d]
  from t h n v have 1: "compute_loocv_D ?X ?y ?D = Inr (Fin (1 / 2))" by (simp add: r fdiv_def)
  from t h v have "spec_loocv_float ?X ?y ?B = Fin 1" by simp
  moreover from t have "compute_loocv ?X ?y ?G = Inr (spec_loocv_float ?X ?y ?B)" by blast
  ultimately have 2: "compute_loocv ?X ?y ?G = Inr (Fin 1)" by simp
  from 1 2 v show ?thesis by simp
qed

subsection \<open>C5: the leverages lie in the unit interval\<close>

text \<open>
  C5 (as amended).  Over exact arithmetic: when \<open>\<Gamma>\<^sup>T \<Gamma>\<close> is positive definite (then so is
  \<open>A = X\<^sup>T X + \<Gamma>\<^sup>T \<Gamma>\<close>), the solver succeeds on \<open>A\<close> and every leverage
  \<open>h\<^sub>i = x\<^sub>i\<^sup>T A\<^sup>-\<^sup>1 x\<^sub>i\<close> of the one-fit estimator satisfies \<open>0 \<le> h\<^sub>i < 1\<close>.
\<close>

theorem leverage_bound:
  assumes "ncols Gamma = ncols X"
    and "pos_def (ncols X) (ent (dot_mm (transpose_m Gamma) Gamma))"
  shows "\<exists>A_inv. inv (regularized X Gamma) = Inr A_inv
           \<and> (\<forall>i<nrows X. 0 \<le> elt (leverages X A_inv) i \<and> elt (leverages X A_inv) i < 1)"
proof -
  from pos_def_inv[OF assms(2)] obtain B where B: "inv (regularized X Gamma) = Inr B" by blast
  have "\<forall>i<nrows X. 0 \<le> elt (leverages X B) i \<and> elt (leverages X B) i < 1"
    using leverage_in_unit_interval[OF assms(2) B] by blast
  with B show ?thesis by blast
qed

text \<open>The theorem at a two-row design with \<open>\<Gamma> = [[1]]\<close>.\<close>

theorem leverage_bound_witness:
  "pos_def (ncols (array2 [[1], [0]])) (ent (dot_mm (transpose_m (array2 [[1]])) (array2 [[1]])))
   \<and> (\<exists>A_inv. inv (regularized (array2 [[1], [0]]) (array2 [[1]])) = Inr A_inv
        \<and> 0 \<le> elt (leverages (array2 [[1], [0]]) A_inv) 0
        \<and> elt (leverages (array2 [[1], [0]]) A_inv) 0 < 1
        \<and> 0 \<le> elt (leverages (array2 [[1], [0]]) A_inv) 1
        \<and> elt (leverages (array2 [[1], [0]]) A_inv) 1 < 1)"
proof -
  let ?X = "array2 [[1], [0]]" and ?G = "array2 [[1]]"
  have c: "ncols ?G = ncols ?X" by (simp add: array2_def)
  have pd: "pos_def (ncols ?X) (ent (dot_mm (transpose_m ?G) ?G))"
    by (auto simp add: pos_def_def array_simps zero_less_mult_iff)
  have n: "nrows ?X = 2" by (simp add: array2_def)
  from leverage_bound[OF c pd] pd n show ?thesis by (auto simp: All_less_Suc numeral_2_eq_2)
qed

text \<open>
  The leverage that the estimator computes in double precision can leave the interval.
  For \<open>X = [[1]]\<close>, \<open>\<Gamma> = [[2 powi (-30)]]\<close> both \<open>\<Gamma>\<^sup>T \<Gamma>\<close> and \<open>A\<close> are positive definite, but
  \<open>1 + 2 powi (-60)\<close> rounds to 1: the computed leverage is 1, and with \<open>y = [1]\<close> the score is
  \<open>0/0\<close>, a NaN.  For \<open>X = [[31 \<cdot> 2 ^ 30]]\<close>, \<open>\<Gamma> = [[1]]\<close> the computed leverage is
  \<open>1 + 2 powi (-52)\<close>, the double after 1.
\<close>

theorem leverage_bound_counterexample:
  "pos_def 1 (ent (dot_mm (transpose_m (array2 [[1 / 2 ^ 30]])) (array2 [[1 / 2 ^ 30]])))
   \<and> pos_def 1 (ent (regularized (array2 [[1]]) (array2 [[1 / 2 ^ 30]])))
   \<and> leverage_double 1 (1 / 2 ^ 30) = Inr (Fin 1)
   \<and> compute_loocv_double 1 1 (1 / 2 ^ 30) = Inr NaN
   \<and> pos_def 1 (ent (dot_mm (transpose_m (array2 [[1]])) (array2 [[1]])))
   \<and> pos_def 1 (ent (regularized (array2 [[33285996544]]) (array2 [[1]])))
   \<and> leverage_double 33285996544 1 = Inr (Fin (1 + 1 / 2 ^ 52))"
proof -
  have pd: "pos_def 1 (ent (dot_mm (transpose_m (array2 [[1 / 2 ^ 30]])) (array2 [[1 / 2 ^ 30]])))"
    "pos_def 1 (ent (regularized (array2 [[1]]) (array2 [[1 / 2 ^ 30]])))"
    "pos_def 1 (ent (dot_mm (transpose_m (array2 [[1]])) (array2 [[1]])))"
    "pos_def 1 (ent (regularized (array2 [[33285996544]]) (array2 [[1]])))"
    by (auto simp add: pos_def_def array_simps zero_less_mult_iff)
  show ?thesis
    using pd leverage_double_one loocv_double_one leverage_double_big by blast
qed

subsection \<open>C6: a singular regularized matrix is an error of the solver\<close>




subsection \<open>C3: when the optimum verifier fails\<close>

text \<open>
  C3 (as amended).  For conforming arrays, provided every LOOCV evaluation that the
  verifier makes returns a finite score (at the fitted parameter and at the absolute values of the two perturbed
  parameters \<open>\<alpha>\<^sub>i - \<delta>\<close> and \<open>\<alpha>\<^sub>i + \<delta>\<close>, \<open>\<delta> = 10\<^sup>-\<^sup>3\<close>, the other components held
  fixed), the verifier fails with the assertion "can't verify optimum" if and only if
  for some component and some direction the slope \<open>(f(perturbed) - f(\<alpha>)) / \<delta>\<close> is
  negative with magnitude above \<open>10\<^sup>-\<^sup>3\<close>, and returns otherwise.  This holds for the
  scalar verifier and for the per-feature verifier.
\<close>

theorem verifier_fails_iff_negative_slope:
  assumes "len y = nrows X"
  shows
  "((\<forall>x\<in>{alpha, \<bar>alpha - delta_x\<bar>, \<bar>alpha + delta_x\<bar>}.
        compute_loocv_D X y (scale_m (identity (ncols X)) x) = Inr (Fin (F1 x))) \<longrightarrow>
     verify_loocv_opt_1 X y alpha
       = (if \<exists>x\<in>{\<bar>alpha - delta_x\<bar>, \<bar>alpha + delta_x\<bar>}. negative_slope (F1 x) (F1 alpha)
          then Inl AssertionError else Inr ()))
   \<and> (len a = ncols X
        \<and> (\<forall>i<len a. \<forall>x\<in>{elt a i, \<bar>elt a i - delta_x\<bar>, \<bar>elt a i + delta_x\<bar>}.
              loocv_at X y a i x = Inr (Fin (F i x))) \<longrightarrow>
       verify_loocv_opt_p X y a
         = (if \<exists>i<len a. \<exists>x\<in>{\<bar>elt a i - delta_x\<bar>, \<bar>elt a i + delta_x\<bar>}.
                  negative_slope (F i x) (F i (elt a i))
            then Inl AssertionError else Inr ()))"
proof (intro conjI impI)
  assume h: "\<forall>x\<in>{alpha, \<bar>alpha - delta_x\<bar>, \<bar>alpha + delta_x\<bar>}.
        compute_loocv_D X y (scale_m (identity (ncols X)) x) = Inr (Fin (F1 x))"
  let ?f = "\<lambda>x. compute_loocv_D X y (scale_m (identity (ncols X)) x)"
  have f0: "?f alpha = Inr (Fin (F1 alpha))"
    and fm: "?f \<bar>alpha - delta_x\<bar> = Inr (Fin (F1 \<bar>alpha - delta_x\<bar>))"
    and fp: "?f \<bar>alpha + delta_x\<bar> = Inr (Fin (F1 \<bar>alpha + delta_x\<bar>))"
    using h by simp_all
  show "verify_loocv_opt_1 X y alpha
       = (if \<exists>x\<in>{\<bar>alpha - delta_x\<bar>, \<bar>alpha + delta_x\<bar>}. negative_slope (F1 x) (F1 alpha)
          then Inl AssertionError else Inr ())"
    unfolding verify_loocv_opt_1_def Let_def f0
    using check_directions_two[of ?f "alpha - delta_x" _ "alpha + delta_x" _ "F1 alpha", OF fm fp]
    by simp
next
  assume "len a = ncols X
        \<and> (\<forall>i<len a. \<forall>x\<in>{elt a i, \<bar>elt a i - delta_x\<bar>, \<bar>elt a i + delta_x\<bar>}.
              loocv_at X y a i x = Inr (Fin (F i x)))"
  then have h: "\<forall>i<len a. \<forall>x\<in>{elt a i, \<bar>elt a i - delta_x\<bar>, \<bar>elt a i + delta_x\<bar>}.
          loocv_at X y a i x = Inr (Fin (F i x))" by simp
  have "verify_components X y a [0..<len a]
     = (if \<exists>i\<in>set [0..<len a]. \<exists>x\<in>{\<bar>elt a i - delta_x\<bar>, \<bar>elt a i + delta_x\<bar>}.
              negative_slope (F i x) (F i (elt a i))
        then Inl AssertionError else Inr ())"
    by (rule verify_components_iff) (use h in simp)
  then show "verify_loocv_opt_p X y a
         = (if \<exists>i<len a. \<exists>x\<in>{\<bar>elt a i - delta_x\<bar>, \<bar>elt a i + delta_x\<bar>}.
                  negative_slope (F i x) (F i (elt a i))
            then Inl AssertionError else Inr ())"
    by (simp add: verify_loocv_opt_p_def)
qed

text \<open>
  The theorem at \<open>X = [[1], [1]]\<close>, \<open>y = [1, 0]\<close>, where the score is
  \<open>(1 + 1/(1 + \<alpha>)\<^sup>2) / 2\<close>: the verifier fails at \<open>\<alpha> = 0\<close> and passes at \<open>\<alpha> = 99\<close>.
\<close>

theorem verifier_fails_iff_negative_slope_witness:
  "verify_loocv_opt_1 (array2 [[1], [1]]) (array1 [1, 0]) 0 = Inl AssertionError
   \<and> verify_loocv_opt_p (array2 [[1], [1]]) (array1 [1, 0]) (array1 [0]) = Inl AssertionError
   \<and> verify_loocv_opt_1 (array2 [[1], [1]]) (array1 [1, 0]) 99 = Inr ()"
proof -
  let ?X = "array2 [[1], [1]]" and ?y = "array1 [1, 0]" and ?a = "array1 [0]"
  let ?F = "\<lambda>x::real. (1 + 1 / (1 + x)\<^sup>2) / 2"
  have e: "compute_loocv_D ?X ?y (scale_m (identity (ncols ?X)) 0) = Inr (Fin (?F 0))"
    "compute_loocv_D ?X ?y (scale_m (identity (ncols ?X)) (1 / 1000)) = Inr (Fin (?F (1 / 1000)))"
    "compute_loocv_D ?X ?y (scale_m (identity (ncols ?X)) 99) = Inr (Fin (?F 99))"
    "compute_loocv_D ?X ?y (scale_m (identity (ncols ?X)) (98999 / 1000)) = Inr (Fin (?F (98999 / 1000)))"
    "compute_loocv_D ?X ?y (scale_m (identity (ncols ?X)) (99001 / 1000)) = Inr (Fin (?F (99001 / 1000)))"
    by (simp_all add: compute_loocv_D_def loocv_sum_def array_simps gj_simps fdiv_def
        numeral_2_eq_2 power2_eq_square)
  have c: "len ?y = nrows ?X" "len ?a = ncols ?X" by (simp_all add: array2_def array1_def)
  have h1: "\<forall>x\<in>{0, \<bar>0 - delta_x\<bar>, \<bar>0 + delta_x\<bar>}.
      compute_loocv_D ?X ?y (scale_m (identity (ncols ?X)) x) = Inr (Fin (?F x))"
    using e by (simp add: delta_x_def)
  have h3: "\<forall>x\<in>{99, \<bar>99 - delta_x\<bar>, \<bar>99 + delta_x\<bar>}.
      compute_loocv_D ?X ?y (scale_m (identity (ncols ?X)) x) = Inr (Fin (?F x))"
    using e by (simp add: delta_x_def)
  have e2: "loocv_at ?X ?y ?a 0 0 = Inr (Fin (?F 0))"
    "loocv_at ?X ?y ?a 0 (1 / 1000) = Inr (Fin (?F (1 / 1000)))"
    by (simp_all add: loocv_at_def set_item_def compute_loocv_D_def loocv_sum_def array_simps
        gj_simps fdiv_def numeral_2_eq_2 power2_eq_square)
  have h2: "\<forall>i<len ?a. \<forall>x\<in>{elt ?a i, \<bar>elt ?a i - delta_x\<bar>, \<bar>elt ?a i + delta_x\<bar>}.
      loocv_at ?X ?y ?a i x = Inr (Fin (?F x))"
    using e2 by (simp add: array1_def delta_x_def)
  have 1: "verify_loocv_opt_1 ?X ?y 0 = Inl AssertionError"
    using verifier_fails_iff_negative_slope[OF c(1), of 0 ?F ?a "\<lambda>i. ?F"] h1
    by (simp add: negative_slope_def delta_x_def power2_eq_square)
  have 2: "verify_loocv_opt_p ?X ?y ?a = Inl AssertionError"
  proof -
    from verifier_fails_iff_negative_slope[OF c(1), of 0 ?F ?a "\<lambda>i. ?F"] c(2) h2
    have "verify_loocv_opt_p ?X ?y ?a
        = (if \<exists>i<len ?a. \<exists>x\<in>{\<bar>elt ?a i - delta_x\<bar>, \<bar>elt ?a i + delta_x\<bar>}.
                negative_slope (?F x) (?F (elt ?a i))
           then Inl AssertionError else Inr ())" by blast
    then show ?thesis
      by (simp add: negative_slope_def delta_x_def power2_eq_square array1_def)
  qed
  have 3: "verify_loocv_opt_1 ?X ?y 99 = Inr ()"
    using verifier_fails_iff_negative_slope[OF c(1), of 99 ?F ?a "\<lambda>i. ?F"] h3
    by (simp add: negative_slope_def delta_x_def power2_eq_square)
  from 1 2 3 show ?thesis by simp
qed

text \<open>
  Without the proviso the verifier can fail in another way: for \<open>X = [[1, 1]]\<close>,
  \<open>y = [1]\<close> and a zero parameter the first evaluation inverts the singular
  \<open>X\<^sup>T X\<close>, and the verifier leaves with the solver's error: it neither reports
  "can't verify optimum" nor returns.
\<close>

theorem verifier_fails_iff_negative_slope_counterexample:
  "verify_loocv_opt_1 (array2 [[1, 1]]) (array1 [1]) 0 = Inl LinAlgError
   \<and> verify_loocv_opt_p (array2 [[1, 1]]) (array1 [1]) (array1 [0, 0]) = Inl LinAlgError"
  by (simp add: verify_loocv_opt_1_def verify_loocv_opt_p_def loocv_at_def set_item_def
      compute_loocv_D_def loocv_sum_def array_simps gj_simps numeral_2_eq_2)

subsection \<open>C4: rotations and the LOOCV score\<close>

text \<open>
  C4 (as amended).  With a fixed diagonal \<open>\<Gamma>\<close>, applying an orthogonal rotation to \<open>X\<close>
  and \<open>y\<close> can change the LOOCV score: for \<open>X = [[1, 2], [0, 3]]\<close>, \<open>y = [1, 0]\<close>,
  \<open>\<Gamma> = diag(1, 2)\<close> and the rotation \<open>Q = [[3/5, -4/5], [4/5, 3/5]]\<close> (orthogonal,
  determinant 1) the score of \<open>(X, y)\<close> is \<open>5/8\<close> and the score of \<open>(Q X, Q y)\<close> is
  \<open>246278125/337272392\<close>.
\<close>

theorem rotation_can_change_loocv:
  "orthogonal (array2 [[3 / 5, - 4 / 5], [4 / 5, 3 / 5]])
   \<and> det 2 (ent (array2 [[3 / 5, - 4 / 5], [4 / 5, 3 / 5]])) = 1
   \<and> compute_loocv_efficient (array2 [[1, 2], [0, 3]]) (array1 [1, 0]) (array2 [[1, 0], [0, 2]])
        = Inr (Fin (5 / 8))
   \<and> compute_loocv_efficient
         (dot_mm (array2 [[3 / 5, - 4 / 5], [4 / 5, 3 / 5]]) (array2 [[1, 2], [0, 3]]))
         (dot_mv (array2 [[3 / 5, - 4 / 5], [4 / 5, 3 / 5]]) (array1 [1, 0]))
         (array2 [[1, 0], [0, 2]])
        = Inr (Fin (246278125 / 337272392))"
proof -
  let ?Q = "array2 [[3 / 5, - 4 / 5], [4 / 5, 3 / 5]]"
  have 1: "orthogonal ?Q"
    by (simp add: orthogonal_def is_unit_def mat_mul_def array_simps numeral_2_eq_2 All_less_Suc)
  have 2: "det 2 (ent ?Q) = 1"
    by (simp add: numeral_2_eq_2 minor_def array2_def)
  have 3: "compute_loocv_efficient (array2 [[1, 2], [0, 3]]) (array1 [1, 0]) (array2 [[1, 0], [0, 2]])
        = Inr (Fin (5 / 8))"
    by (simp add: compute_loocv_efficient_def loocv_sum_def array_simps gj_simps fdiv_def
        numeral_2_eq_2)
  have 4: "compute_loocv_efficient (dot_mm ?Q (array2 [[1, 2], [0, 3]]))
         (dot_mv ?Q (array1 [1, 0])) (array2 [[1, 0], [0, 2]])
        = Inr (Fin (246278125 / 337272392))"
    by (simp add: compute_loocv_efficient_def loocv_sum_def array_simps gj_simps fdiv_def
        numeral_2_eq_2)
  from 1 2 3 4 show ?thesis by simp
qed

text \<open>
  Not every rotation other than the identity changes the score: the half turn
  \<open>Q = -I\<close> (orthogonal, determinant 1) negates \<open>X\<close> and \<open>y\<close> and leaves the score of
  the same data at \<open>5/8\<close>.
\<close>

theorem rotation_sensitivity_counterexample:
  "orthogonal (array2 [[- 1, 0], [0, - 1]])
   \<and> det 2 (ent (array2 [[- 1, 0], [0, - 1]])) = 1
   \<and> ent (array2 [[- 1, 0], [0, - 1]]) 0 0 \<noteq> ent (identity 2) 0 0
   \<and> compute_loocv_efficient
         (dot_mm (array2 [[- 1, 0], [0, - 1]]) (array2 [[1, 2], [0, 3]]))
         (dot_mv (array2 [[- 1, 0], [0, - 1]]) (array1 [1, 0]))
         (array2 [[1, 0], [0, 2]])
       = compute_loocv_efficient (array2 [[1, 2], [0, 3]]) (array1 [1, 0]) (array2 [[1, 0], [0, 2]])"
proof -
  let ?Q = "array2 [[- 1, 0], [0, - 1]]"
  have 1: "orthogonal ?Q"
    by (simp add: orthogonal_def is_unit_def mat_mul_def array_simps numeral_2_eq_2 All_less_Suc)
  have 2: "det 2 (ent ?Q) = 1"
    by (simp add: numeral_2_eq_2 minor_def array2_def)
  have 3: "compute_loocv_efficient (array2 [[1, 2], [0, 3]]) (array1 [1, 0]) (array2 [[1, 0], [0, 2]])
        = Inr (Fin (5 / 8))"
    by (simp add: compute_loocv_efficient_def loocv_sum_def array_simps gj_simps fdiv_def
        numeral_2_eq_2)
  have 4: "compute_loocv_efficient (dot_mm ?Q (array2 [[1, 2], [0, 3]]))
         (dot_mv ?Q (array1 [1, 0])) (array2 [[1, 0], [0, 2]])
        = Inr (Fin (5 / 8))"
    by (simp add: compute_loocv_efficient_def loocv_sum_def array_simps gj_simps fdiv_def
        numeral_2_eq_2)
  have 5: "ent ?Q 0 0 \<noteq> ent (identity 2) 0 0" by (simp add: array2_def identity_def)
  from 1 2 3 4 5 show ?thesis by simp
qed

subsection \<open>C10: a scalar regularization parameter is broadcast\<close>

text \<open>
  C10.  For every \<open>X\<close>, \<open>y\<close> and float \<open>\<alpha>\<close>, the ridge fit with the scalar \<open>\<alpha>\<close> returns
  exactly what it returns with the vector of length \<open>p\<close> whose entries all equal \<open>\<alpha>\<close>.
\<close>

theorem fit_scalar_is_broadcast:
  assumes "len y = nrows X" and "len v = ncols X" and "\<forall>i<ncols X. elt v i = a"
  shows "fit_ridge_regression X y (Scalar a) = fit_ridge_regression X y (PerFeature v)"
proof -
  have "diag (scale_v (ones (ncols X)) a) = diag v"
    using assms by (auto simp add: diag_def scale_v_def ones_def fun_eq_iff)
  then show ?thesis by (simp add: fit_ridge_regression_def)
qed

text \<open>The theorem at a two-row design with \<open>\<alpha> = 1\<close>, where the fit is \<open>[1/2]\<close>.\<close>

theorem fit_scalar_is_broadcast_witness:
  "fit_ridge_regression (array2 [[1], [0]]) (array1 [1, 0]) (Scalar 1)
     = fit_ridge_regression (array2 [[1], [0]]) (array1 [1, 0]) (PerFeature (array1 [1]))
   \<and> (\<exists>b. fit_ridge_regression (array2 [[1], [0]]) (array1 [1, 0]) (PerFeature (array1 [1])) = Inr b
          \<and> len b = 1 \<and> elt b 0 = 1 / 2)"
proof -
  have a: "len (array1 [1]) = ncols (array2 [[1], [0]])" by (simp add: array2_def array1_def)
  have b: "\<forall>i<ncols (array2 [[1], [0]]). elt (array1 [1]) i = 1" by (simp add: array2_def array1_def)
  have c: "\<exists>b. fit_ridge_regression (array2 [[1], [0]]) (array1 [1, 0]) (PerFeature (array1 [1])) = Inr b
          \<and> len b = 1 \<and> elt b 0 = 1 / 2"
    by (simp add: fit_ridge_regression_def array_simps gj_simps numeral_2_eq_2)
  have d: "len (array1 [1, 0]) = nrows (array2 [[1], [0]])" by (simp add: array2_def array1_def)
  from fit_scalar_is_broadcast[OF d a b] c show ?thesis by simp
qed

subsection \<open>C7: mean and confidence half-width of the trial errors\<close>

text \<open>
  C7.  For at least two recorded errors, the aggregation returns their sample mean
  together with the upper endpoint of the Student-t interval at confidence 0.95 with
  \<open>n - 1\<close> degrees of freedom and scale equal to the sample standard deviation
  (\<open>n - 1\<close> in the denominator) divided by \<open>\<surd>n\<close>.
\<close>

theorem simulation_statistics:
  assumes "2 \<le> length vals"
  shows "compute_simulation_statistics interval_fn vals
     = (Fin (sample_mean vals),
        snd (interval_fn (95 / 100) (int (length vals) - 1)
               (Fin (sample_sd vals / sqrt (real (length vals))))))"
proof -
  have ne: "vals \<noteq> []" using assms by auto
  have nz: "sqrt (real (length vals)) \<noteq> 0" using ne by simp
  have "fdivr (np_std vals 1) (sqrt (real (length vals)))
      = Fin (sample_sd vals / sqrt (real (length vals)))"
    unfolding np_std_sample[OF assms] using nz by (simp add: fdiv_def)
  then show ?thesis
    unfolding compute_simulation_statistics_def Let_def np_mean_sample[OF ne] by simp
qed

text \<open>The theorem at the errors \<open>[1, 3]\<close>, with an interval function that returns \<open>\<plusminus>\<close> scale.\<close>

theorem simulation_statistics_witness:
  "compute_simulation_statistics (\<lambda>conf df scale. (fsub (Fin 0) scale, scale)) [1, 3]
     = (Fin 2, Fin 1)"
proof -
  have l: "2 \<le> length [1, 3 :: real]" by simp
  have m: "sample_mean [1, 3] = 2" by (simp add: sample_mean_def)
  have s: "sample_sd [1, 3] = sqrt 2" by (simp add: sample_sd_def m)
  from simulation_statistics[OF l, of "\<lambda>conf df scale. (fsub (Fin 0) scale, scale)"]
  show ?thesis by (simp add: m s)
qed

subsection \<open>C9: the generated rotation matrix\<close>

text \<open>
  C9.  For every \<open>n\<close> and all draws of the angles, the matrix returned by
  \<^verbatim>\<open>generate_rotation_matrix(n)\<close>, the product of \<open>n - 1\<close> plane rotations in the
  coordinate planes \<open>(i, i + 1)\<close>, is an \<open>n \<times> n\<close> matrix \<open>R\<close> with \<open>R\<^sup>T R = I\<close> and
  determinant 1.
\<close>

theorem rotation_matrix_orthogonal:
  "orthogonal (generate_rotation_matrix n u)
   \<and> det n (ent (generate_rotation_matrix n u)) = 1
   \<and> nrows (generate_rotation_matrix n u) = n
   \<and> ncols (generate_rotation_matrix n u) = n"
  using rotation_loop_props[OF le_refl, of n u]
  by (simp add: generate_rotation_matrix_def orthogonal_def is_unit_def mat_mul_def transpose_m_def)

text \<open>The theorem for \<open>n = 2\<close> and the angle \<open>\<pi>/2\<close>, where \<open>R = [[0, -1], [1, 0]]\<close>.\<close>

theorem rotation_matrix_orthogonal_witness:
  "orthogonal (generate_rotation_matrix 2 (\<lambda>i. 1 / 4))
   \<and> det 2 (ent (generate_rotation_matrix 2 (\<lambda>i. 1 / 4))) = 1
   \<and> ent (generate_rotation_matrix 2 (\<lambda>i. 1 / 4)) 0 1 = - 1"
proof -
  have "ent (generate_rotation_matrix 2 (\<lambda>i. 1 / 4)) 0 1 = - 1"
    by (simp add: generate_rotation_matrix_def numeral_2_eq_2 dot_mm_def identity_def
        ent_rotation_step)
  with rotation_matrix_orthogonal[of 2 "\<lambda>i. 1 / 4"] show ?thesis by simp
qed

subsection \<open>C8: no operation mutates its inputs\<close>

text \<open>
  C8.  When the per-feature verifier is called with references to \<open>X\<close>, \<open>y\<close> and the
  parameter vector, every array that existed before the call is unchanged after it (in
  particular \<open>X\<close>, \<open>y\<close> and the caller's parameter vector: the perturbation is written
  into a copy), and the outcome is that of the verifier on the values.  The estimators,
  the scalar verifier and the ridge fit leave the store as it is; the ridge fit with a
  float parameter only adds the broadcast array.
\<close>

theorem inputs_not_mutated:
  assumes "cells s xa = Some (Arr2 X)" and "cells s ya = Some (Arr1 y)"
    and "cells s aa = Some (Arr1 alpha)" and "cells s ga = Some (Arr2 Gamma)"
    and "xa < next_addr s" and "ya < next_addr s" and "aa < next_addr s" and "ga < next_addr s"
  shows "extends s (snd (verify_loocv_opt_p_st xa ya aa s))
       \<and> fst (verify_loocv_opt_p_st xa ya aa s) = verify_loocv_opt_p X y alpha
       \<and> cells (snd (verify_loocv_opt_p_st xa ya aa s)) xa = Some (Arr2 X)
       \<and> cells (snd (verify_loocv_opt_p_st xa ya aa s)) ya = Some (Arr1 y)
       \<and> cells (snd (verify_loocv_opt_p_st xa ya aa s)) aa = Some (Arr1 alpha)
       \<and> (\<forall>f. call_estimator f xa ya ga s = (f X y Gamma, s))
       \<and> (\<forall>a. verify_loocv_opt_1_st xa ya a s = (verify_loocv_opt_1 X y a, s))
       \<and> fit_ridge_regression_st xa ya (ArrayArg aa) s
            = (fit_ridge_regression X y (PerFeature alpha), s)
       \<and> (\<forall>a. fst (fit_ridge_regression_st xa ya (FloatArg a) s)
                 = fit_ridge_regression X y (Scalar a)
              \<and> extends s (snd (fit_ridge_regression_st xa ya (FloatArg a) s)))"
proof -
  have v: "fst (verify_components_st xa ya aa [0..<len alpha] s)
             = verify_components X y alpha [0..<len alpha]
       \<and> extends s (snd (verify_components_st xa ya aa [0..<len alpha] s))"
    by (rule verify_components_st_sound[OF assms(1,2,3,5,6,7)]) simp
  then have 1: "extends s (snd (verify_loocv_opt_p_st xa ya aa s))"
    and 2: "fst (verify_loocv_opt_p_st xa ya aa s) = verify_loocv_opt_p X y alpha"
    by (simp_all add: verify_loocv_opt_p_st_def verify_loocv_opt_p_def assms(3))
  have 3: "cells (snd (verify_loocv_opt_p_st xa ya aa s)) xa = Some (Arr2 X)"
    "cells (snd (verify_loocv_opt_p_st xa ya aa s)) ya = Some (Arr1 y)"
    "cells (snd (verify_loocv_opt_p_st xa ya aa s)) aa = Some (Arr1 alpha)"
    using extends_cells[OF 1] assms by simp_all
  have 4: "call_estimator f xa ya ga s = (f X y Gamma, s)" for f
    by (simp add: call_estimator_def assms)
  have 5: "verify_loocv_opt_1_st xa ya a s = (verify_loocv_opt_1 X y a, s)" for a
    by (simp add: verify_loocv_opt_1_st_def assms)
  have 6: "fit_ridge_regression_st xa ya (ArrayArg aa) s
            = (fit_ridge_regression X y (PerFeature alpha), s)"
    by (simp add: fit_ridge_regression_st_def assms)
  have 7: "fst (fit_ridge_regression_st xa ya (FloatArg a) s) = fit_ridge_regression X y (Scalar a)
              \<and> extends s (snd (fit_ridge_regression_st xa ya (FloatArg a) s))" for a
    by (simp add: fit_ridge_regression_st_def assms alloc_def fit_ridge_regression_def extends_def)
  from 1 2 3 4 5 6 7 show ?thesis by simp
qed

text \<open>
  The theorem on a store with four arrays: after the run of the per-feature verifier the
  parameter vector at reference 2 is still \<open>[0]\<close>, while the copy at the new reference 5
  holds the perturbed \<open>[1/1000]\<close>.
\<close>

theorem inputs_not_mutated_witness:
  "cells (snd (verify_loocv_opt_p_st 0 1 2
       \<lparr>cells = [0 \<mapsto> Arr2 (array2 [[1], [1]]), 1 \<mapsto> Arr1 (array1 [1, 0]),
                 2 \<mapsto> Arr1 (array1 [0]), 3 \<mapsto> Arr2 (array2 [[1]])],
        next_addr = 4\<rparr>)) 2 = Some (Arr1 (array1 [0]))
   \<and> cells (snd (verify_loocv_opt_p_st 0 1 2
       \<lparr>cells = [0 \<mapsto> Arr2 (array2 [[1], [1]]), 1 \<mapsto> Arr1 (array1 [1, 0]),
                 2 \<mapsto> Arr1 (array1 [0]), 3 \<mapsto> Arr2 (array2 [[1]])],
        next_addr = 4\<rparr>)) 5 = Some (Arr1 (set_item (array1 [0]) 0 (1 / 1000)))
   \<and> next_addr (snd (verify_loocv_opt_p_st 0 1 2
       \<lparr>cells = [0 \<mapsto> Arr2 (array2 [[1], [1]]), 1 \<mapsto> Arr1 (array1 [1, 0]),
                 2 \<mapsto> Arr1 (array1 [0]), 3 \<mapsto> Arr2 (array2 [[1]])],
        next_addr = 4\<rparr>)) = 6
   \<and> fst (verify_loocv_opt_p_st 0 1 2
       \<lparr>cells = [0 \<mapsto> Arr2 (array2 [[1], [1]]), 1 \<mapsto> Arr1 (array1 [1, 0]),
                 2 \<mapsto> Arr1 (array1 [0]), 3 \<mapsto> Arr2 (array2 [[1]])],
        next_addr = 4\<rparr>) = verify_loocv_opt_p (array2 [[1], [1]]) (array1 [1, 0]) (array1 [0])
   \<and> snd (call_estimator compute_loocv 0 1 3
       \<lparr>cells = [0 \<mapsto> Arr2 (array2 [[1], [1]]), 1 \<mapsto> Arr1 (array1 [1, 0]),
                 2 \<mapsto> Arr1 (array1 [0]), 3 \<mapsto> Arr2 (array2 [[1]])],
        next_addr = 4\<rparr>)
      = \<lparr>cells = [0 \<mapsto> Arr2 (array2 [[1], [1]]), 1 \<mapsto> Arr1 (array1 [1, 0]),
                 2 \<mapsto> Arr1 (array1 [0]), 3 \<mapsto> Arr2 (array2 [[1]])],
        next_addr = 4\<rparr>"
proof -
  let ?s = "\<lparr>cells = [0 \<mapsto> Arr2 (array2 [[1], [1]]), 1 \<mapsto> Arr1 (array1 [1, 0]),
                 2 \<mapsto> Arr1 (array1 [0]), 3 \<mapsto> Arr2 (array2 [[1]])],
        next_addr = 4::nat\<rparr>"
  have "cells (snd (verify_loocv_opt_p_st 0 1 2 ?s)) 2 = Some (Arr1 (array1 [0]))
      \<and> fst (verify_loocv_opt_p_st 0 1 2 ?s)
          = verify_loocv_opt_p (array2 [[1], [1]]) (array1 [1, 0]) (array1 [0])
      \<and> (\<forall>f. call_estimator f 0 1 3 ?s = (f (array2 [[1], [1]]) (array1 [1, 0]) (array2 [[1]]), ?s))"
    using inputs_not_mutated[of ?s 0 "array2 [[1], [1]]" 1 "array1 [1, 0]" 2 "array1 [0]" 3 "array2 [[1]]"]
    by simp
  moreover have "next_addr (snd (verify_loocv_opt_p_st 0 1 2 ?s)) = 6
      \<and> cells (snd (verify_loocv_opt_p_st 0 1 2 ?s)) 5
          = Some (Arr1 (set_item (array1 [0]) 0 (1 / 1000)))"
    by (simp add: verify_loocv_opt_p_st_def loocv_at_st_def alloc_def store_set_item_def Let_def
        array1_def array2_def set_item_def delta_x_def
        compute_loocv_D_def loocv_sum_def transpose_m_def dot_mm_def dot_mv_def dot_vv_def
        add_mm_def row_def diag_def identity_def leverages_def gj_simps fdiv_def slope_fails_def
        numeral_2_eq_2 power2_eq_square)
  ultimately show ?thesis by simp
qed


end
